theory Spec2Isabelle
  imports Main "HOL-Library.Sublist"
begin

section \<open>The object manager tree\<close>

text \<open>
  The library walks the host application's object tree through four queries on an object
  handle: \<^verbatim>\<open>GetUp()\<close>, \<^verbatim>\<open>GetDown()\<close>, \<^verbatim>\<open>GetNext()\<close> and \<^verbatim>\<open>GetName()\<close>, and compares
  handles for equality. The host tree is a forest: a document holds a list of top-level
  objects, each object holds the list of its children. A handle is modelled as the position
  of the object: the list of sibling indices leading to it, innermost first, so that the
  tail of a handle is the handle of the parent and a top-level object is \<open>[i]\<close>. Names need
  not be unique; two handles are equal exactly when they denote the same position. A query
  answers \<open>None\<close> where the host answers \<^verbatim>\<open>None\<close>; in a test such as \<^verbatim>\<open>while op\<close> a handle
  counts as true and \<^verbatim>\<open>None\<close> as false.
\<close>

datatype obj = Obj (obj_name: string) (obj_type: int) (obj_children: "obj list")

type_synonym document = "obj list"
type_synonym node = "nat list"

text \<open>\<open>below doc ps\<close> is the list of objects directly under position \<open>ps\<close>
  (the top-level objects for \<open>ps = []\<close>), or \<open>None\<close> when there is no such position.\<close>

fun below :: "document \<Rightarrow> nat list \<Rightarrow> obj list option" where
  "below doc [] = Some doc"
| "below doc (i # ps) =
     (case below doc ps of
        None \<Rightarrow> None
      | Some ts \<Rightarrow> if i < length ts then Some (obj_children (ts ! i)) else None)"

definition alive :: "document \<Rightarrow> node \<Rightarrow> bool" where
  "alive doc p = (p \<noteq> [] \<and> below doc p \<noteq> None)"

definition GetUp :: "document \<Rightarrow> node \<Rightarrow> node option" where
  "GetUp doc p = (case p of [] \<Rightarrow> None | i # ps \<Rightarrow> if ps = [] then None else Some ps)"

definition GetDown :: "document \<Rightarrow> node \<Rightarrow> node option" where
  "GetDown doc p =
     (case p of [] \<Rightarrow> None
      | i # ps \<Rightarrow> (case below doc p of Some (t # ts) \<Rightarrow> Some (0 # p) | _ \<Rightarrow> None))"

definition GetNext :: "document \<Rightarrow> node \<Rightarrow> node option" where
  "GetNext doc p =
     (case p of [] \<Rightarrow> None
      | i # ps \<Rightarrow>
         (case below doc ps of
            None \<Rightarrow> None
          | Some ts \<Rightarrow> if Suc i < length ts then Some (Suc i # ps) else None))"

definition lookup :: "document \<Rightarrow> node \<Rightarrow> obj option" where
  "lookup doc p =
     (case p of [] \<Rightarrow> None
      | i # ps \<Rightarrow>
         (case below doc ps of
            None \<Rightarrow> None
          | Some ts \<Rightarrow> if i < length ts then Some (ts ! i) else None))"

definition GetName :: "document \<Rightarrow> node \<Rightarrow> string" where
  "GetName doc p = (case lookup doc p of None \<Rightarrow> [] | Some t \<Rightarrow> obj_name t)"

definition GetType :: "document \<Rightarrow> node \<Rightarrow> int" where
  "GetType doc p = (case lookup doc p of None \<Rightarrow> 0 | Some t \<Rightarrow> obj_type t)"

definition GetFirstObject :: "document \<Rightarrow> node option" where
  "GetFirstObject doc = (if doc = [] then None else Some [0])"

section \<open>ObjectIterator\<close>

text \<open>
  The iterator object. \<open>stopobjs\<close> is a Python list that may hold \<open>None\<close> (a null start
  object is stored there by the constructor), so its elements are optional handles.
  The constructor always assigns a list to \<open>stopobjs\<close>, so the branch of \<^verbatim>\<open>next\<close>
  guarded by \<^verbatim>\<open>self.stopobjs is None\<close> is never taken and has no counterpart below.
\<close>

record ObjectIterator =
  curobj :: "node option"
  curlvl :: int
  childrenonly :: bool
  stopobjs :: "node option list"
  init :: bool

text \<open>The \<^verbatim>\<open>stopobj\<close> argument: absent, one object, or a list.\<close>

datatype stoparg = NoStop | StopObject node | StopList "node option list"

text \<open>\<^verbatim>\<open>while op: startlvl += 1; op = op.GetUp()\<close>\<close>

function start_level :: "document \<Rightarrow> node option \<Rightarrow> int \<Rightarrow> int" where
  "start_level doc None startlvl = startlvl"
| "start_level doc (Some op) startlvl = start_level doc (GetUp doc op) (startlvl + 1)"
  by pat_completeness auto
termination
  by (relation "measure (\<lambda>(doc, op, l). case op of None \<Rightarrow> 0 | Some p \<Rightarrow> Suc (length p))")
     (auto simp: GetUp_def split: list.splits option.splits)

definition ObjectIterator_init ::
  "document \<Rightarrow> node option \<Rightarrow> stoparg \<Rightarrow> bool \<Rightarrow> int \<Rightarrow> ObjectIterator" where
  "ObjectIterator_init doc startobj stopobj children_only startlvl =
     (let lvl = start_level doc startobj startlvl;
          stops = (if children_only then [startobj] else []);
          stops' = (case stopobj of
                      NoStop \<Rightarrow> stops
                    | StopList l \<Rightarrow> stops @ l
                    | StopObject s \<Rightarrow> stops @ [Some s])
      in \<lparr>curobj = startobj, curlvl = lvl, childrenonly = children_only,
          stopobjs = stops', init = (\<not> children_only)\<rparr>)"

text \<open>
  The ascent loop of \<^verbatim>\<open>next\<close>:
  \<^verbatim>\<open>while not op.GetNext() and op.GetUp():
      if (op in self.stopobjs) or (op.GetUp() in self.stopobjs): raise StopIteration
      self.curlvl -= 1
      op = op.GetUp()\<close>
  The result is the level reached and the object reached, or \<open>None\<close> for the object when
  the loop raised \<^verbatim>\<open>StopIteration\<close>.
\<close>

function ascend :: "document \<Rightarrow> node option list \<Rightarrow> node \<Rightarrow> int \<Rightarrow> node option \<times> int" where
  "ascend doc stops op lvl =
     (case GetNext doc op of
        Some n \<Rightarrow> (Some op, lvl)
      | None \<Rightarrow>
         (case GetUp doc op of
            None \<Rightarrow> (Some op, lvl)
          | Some up \<Rightarrow>
             if Some op \<in> set stops \<or> Some up \<in> set stops then (None, lvl)
             else ascend doc stops up (lvl - 1)))"
  by pat_completeness auto
termination
  by (relation "measure (\<lambda>(doc, stops, op, lvl). length op)")
     (auto simp: GetUp_def split: list.splits if_splits)

declare ascend.simps [simp del]

text \<open>
  One call of \<^verbatim>\<open>next\<close>: the pair returned, or \<open>None\<close> for \<^verbatim>\<open>StopIteration\<close>, together
  with the iterator as the call leaves it.
\<close>

definition ObjectIterator_next ::
  "document \<Rightarrow> ObjectIterator \<Rightarrow> (node option \<times> int) option \<times> ObjectIterator" where
  "ObjectIterator_next doc it =
     (if init it then (Some (curobj it, curlvl it), it\<lparr>init := False\<rparr>)
      else case curobj it of
        None \<Rightarrow> (None, it)
      | Some op \<Rightarrow>
         (case GetDown doc op of
            Some d \<Rightarrow>
              if GetNext doc op \<in> set (stopobjs it) \<or> Some d \<in> set (stopobjs it)
              then (None, it)
              else (Some (Some d, curlvl it + 1),
                    it\<lparr>curobj := Some d, curlvl := curlvl it + 1\<rparr>)
          | None \<Rightarrow>
              if Some op \<in> set (stopobjs it) then (None, it)
              else (case ascend doc (stopobjs it) op (curlvl it) of
                      (None, lvl) \<Rightarrow> (None, it\<lparr>curlvl := lvl\<rparr>)
                    | (Some op', lvl) \<Rightarrow>
                       (case GetNext doc op' of
                          Some n \<Rightarrow>
                            if Some n \<in> set (stopobjs it) then (None, it\<lparr>curlvl := lvl\<rparr>)
                            else (Some (Some n, lvl), it\<lparr>curobj := Some n, curlvl := lvl\<rparr>)
                        | None \<Rightarrow> (None, it\<lparr>curlvl := lvl\<rparr>)))))"

text \<open>
  Consuming the iterator (\<^verbatim>\<open>for op, lvl in ObjectIterator(...)\<close>): \<^verbatim>\<open>next\<close> is called
  until it raises \<^verbatim>\<open>StopIteration\<close>. The loop need not end on an arbitrary iterator
  state, so the function is partial: \<open>None\<close> means that the loop runs forever.
\<close>

partial_function (option) drain ::
  "document \<Rightarrow> ObjectIterator \<Rightarrow> (node option \<times> int) list option" where
  "drain doc it =
     (case ObjectIterator_next doc it of
        (None, it') \<Rightarrow> Some []
      | (Some y, it') \<Rightarrow> Option.bind (drain doc it') (\<lambda>ys. Some (y # ys)))"

declare drain.simps [code]

definition iterate ::
  "document \<Rightarrow> node option \<Rightarrow> stoparg \<Rightarrow> bool \<Rightarrow> int \<Rightarrow> (node option \<times> int) list option" where
  "iterate doc startobj stopobj children_only startlvl =
     drain doc (ObjectIterator_init doc startobj stopobj children_only startlvl)"

section \<open>Python strings\<close>

text \<open>
  The string methods used by \<^verbatim>\<open>ObjectHierarchy\<close>, on Python 2 byte strings:
  \<^verbatim>\<open>s.strip()\<close>, \<^verbatim>\<open>sub in s\<close>, \<^verbatim>\<open>s.split(sep)\<close> and \<^verbatim>\<open>sep.join(l)\<close> for the
  one-character separator, and \<^verbatim>\<open>s.replace(c, r)\<close> for a one-character \<^verbatim>\<open>c\<close>.
\<close>

datatype error = IndexError | TypeError | AttributeError | RegexError | OutsideFragment

definition newline :: char where
  "newline = CHR 0x0A"

definition is_space :: "char \<Rightarrow> bool" where
  "is_space c = (c \<in> set [CHR '' '', CHR 0x09, CHR 0x0A, CHR 0x0B, CHR 0x0C, CHR 0x0D])"

definition str_strip :: "string \<Rightarrow> string" where
  "str_strip s = rev (dropWhile is_space (rev (dropWhile is_space s)))"

fun str_contains :: "string \<Rightarrow> string \<Rightarrow> bool" where
  "str_contains sub [] = (sub = [])"
| "str_contains sub (x # xs) = (prefix sub (x # xs) \<or> str_contains sub xs)"

fun str_split :: "char \<Rightarrow> string \<Rightarrow> string list" where
  "str_split c [] = [[]]"
| "str_split c (x # xs) =
     (if x = c then [] # str_split c xs
      else (case str_split c xs of [] \<Rightarrow> [[x]] | w # ws \<Rightarrow> (x # w) # ws))"

fun str_join :: "string \<Rightarrow> string list \<Rightarrow> string" where
  "str_join s [] = []"
| "str_join s [w] = w"
| "str_join s (w # v # ws) = w @ s @ str_join s (v # ws)"

definition str_replace :: "char \<Rightarrow> string \<Rightarrow> string \<Rightarrow> string" where
  "str_replace c r s = concat (map (\<lambda>x. if x = c then r else [x]) s)"

section \<open>Regular expressions\<close>

text \<open>
  \<^verbatim>\<open>re.match(pat, key)\<close> of the Python 2 standard library, for the patterns built from
  ordinary characters, \<^verbatim>\<open>.\<close>, \<^verbatim>\<open>^\<close>, \<^verbatim>\<open>$\<close>, \<^verbatim>\<open>|\<close> and the repetitions \<^verbatim>\<open>*\<close>, \<^verbatim>\<open>+\<close>,
  \<^verbatim>\<open>?\<close>, each greedy or, with a \<^verbatim>\<open>?\<close> behind it, lazy. No flags are passed, so \<^verbatim>\<open>.\<close>
  is any character but a newline, \<^verbatim>\<open>^\<close> is the start of the string and \<^verbatim>\<open>$\<close> is the end
  of the string or the position before a newline that ends the string. A \<^verbatim>\<open>]\<close> or \<^verbatim>\<open>}\<close>
  that closes nothing is an ordinary character. A pattern with a group, a character
  class, a counted repetition or an escape (the characters \<^verbatim>\<open>(\<close>, \<^verbatim>\<open>)\<close>, \<^verbatim>\<open>[\<close>, \<^verbatim>\<open>{\<close> and the
  backslash) is outside this fragment and is answered with \<open>OutsideFragment\<close>; a
  repetition with nothing to repeat or behind another repetition is the library's
  \<^verbatim>\<open>re.error\<close>.
\<close>

datatype atom = Lit char | AnyChar
datatype rep = ZeroOrMore | OneOrMore | ZeroOrOne
datatype piece = Chr atom | Repeat atom rep bool | Bol | Eol

definition rep_of :: "char \<Rightarrow> rep" where
  "rep_of c = (if c = CHR ''*'' then ZeroOrMore else if c = CHR ''+'' then OneOrMore else ZeroOrOne)"

text \<open>One branch of a pattern, read left to right; \<open>acc\<close> holds the pieces read so far,
  the last one first.\<close>

fun parse_pieces :: "piece list \<Rightarrow> string \<Rightarrow> error + piece list" where
  "parse_pieces acc [] = Inr (rev acc)"
| "parse_pieces acc (c # cs) =
     (if c \<in> set (CHR 0x5C # ''()[{'') then Inl OutsideFragment
      else if c \<in> set ''*+?'' then
        (case acc of
           [] \<Rightarrow> Inl RegexError
         | Bol # acc' \<Rightarrow> Inl RegexError
         | Eol # acc' \<Rightarrow> Inl RegexError
         | Chr a # acc' \<Rightarrow> parse_pieces (Repeat a (rep_of c) False # acc') cs
         | Repeat a r lazy # acc' \<Rightarrow>
             if c = CHR ''?'' \<and> \<not> lazy then parse_pieces (Repeat a r True # acc') cs
             else Inl RegexError)
      else if c = CHR ''^'' then parse_pieces (Bol # acc) cs
      else if c = CHR 0x24 then parse_pieces (Eol # acc) cs
      else if c = CHR ''.'' then parse_pieces (Chr AnyChar # acc) cs
      else parse_pieces (Chr (Lit c) # acc) cs)"

fun parse_branches :: "string list \<Rightarrow> error + piece list list" where
  "parse_branches [] = Inr []"
| "parse_branches (b # bs) =
     (case parse_pieces [] b of
        Inl e \<Rightarrow> Inl e
      | Inr ps \<Rightarrow> (case parse_branches bs of Inl e \<Rightarrow> Inl e | Inr pss \<Rightarrow> Inr (ps # pss)))"

definition re_parse :: "string \<Rightarrow> error + piece list list" where
  "re_parse pat = parse_branches (str_split CHR ''|'' pat)"

fun atom_ok :: "atom \<Rightarrow> char \<Rightarrow> bool" where
  "atom_ok (Lit c) x = (x = c)"
| "atom_ok AnyChar x = (x \<noteq> newline)"

text \<open>\<open>match_here ps start s\<close>: the pieces \<open>ps\<close> match some prefix of the rest \<open>s\<close> of the
  subject; \<open>start\<close> tells whether \<open>s\<close> is the whole subject. The engine backtracks over
  every repetition, so whether a match is found does not depend on greedy or lazy.\<close>

fun match_here :: "piece list \<Rightarrow> bool \<Rightarrow> string \<Rightarrow> bool" where
  "match_here [] start s = True"
| "match_here (Bol # ps) start s = (start \<and> match_here ps start s)"
| "match_here (Eol # ps) start s = ((s = [] \<or> s = [newline]) \<and> match_here ps start s)"
| "match_here (Chr a # ps) start s =
     (case s of [] \<Rightarrow> False | x # xs \<Rightarrow> atom_ok a x \<and> match_here ps False xs)"
| "match_here (Repeat a ZeroOrOne lazy # ps) start s =
     (match_here ps start s \<or>
      (case s of [] \<Rightarrow> False | x # xs \<Rightarrow> atom_ok a x \<and> match_here ps False xs))"
| "match_here (Repeat a ZeroOrMore lazy # ps) start s =
     (match_here ps start s \<or>
      (case s of [] \<Rightarrow> False
       | x # xs \<Rightarrow> atom_ok a x \<and> match_here (Repeat a ZeroOrMore lazy # ps) False xs))"
| "match_here (Repeat a OneOrMore lazy # ps) start s =
     (case s of [] \<Rightarrow> False
      | x # xs \<Rightarrow> atom_ok a x \<and> match_here (Repeat a ZeroOrMore lazy # ps) False xs)"

text \<open>\<^verbatim>\<open>re.match(pat, key)\<close> as a truth value: the pattern is tried at the start of the key
  only, and any branch may match.\<close>

definition re_match :: "string \<Rightarrow> string \<Rightarrow> error + bool" where
  "re_match pat key =
     (case re_parse pat of
        Inl e \<Rightarrow> Inl e
      | Inr branches \<Rightarrow> Inr (list_ex (\<lambda>ps. match_here ps True key) branches))"

section \<open>ObjectHierarchy\<close>

text \<open>
  The dictionary \<^verbatim>\<open>entries\<close> maps a parent path to the list of objects indexed under it.
  It is kept as an association list with distinct keys; the order of the list stands for
  the order in which the dictionary lists its keys. Python 2 does not fix that order, so a
  statement about every \<open>ObjectHierarchy\<close> covers every order; \<open>ObjectHierarchy_init\<close>
  stores the keys in the order in which they were first met.
\<close>

type_synonym entries = "(string \<times> node list) list"

record ObjectHierarchy =
  root :: "node option"
  maxlvl :: int
  entries :: entries

definition sep :: char where
  "sep = CHR ''/''"

text \<open>
  \<^verbatim>\<open>while opp:
      opp = opp.GetUp()
      if opp: plist.append(opp.GetName())\<close>
\<close>

function collect_parents :: "document \<Rightarrow> node option \<Rightarrow> string list \<Rightarrow> string list" where
  "collect_parents doc None plist = plist"
| "collect_parents doc (Some opp) plist =
     (case GetUp doc opp of
        None \<Rightarrow> collect_parents doc None plist
      | Some up \<Rightarrow> collect_parents doc (Some up) (plist @ [GetName doc up]))"
  by pat_completeness auto
termination
  by (relation "measure (\<lambda>(doc, opp, plist). case opp of None \<Rightarrow> 0 | Some p \<Rightarrow> Suc (length p))")
     (auto simp: GetUp_def split: list.splits if_splits)

definition parent_path :: "document \<Rightarrow> node \<Rightarrow> string" where
  "parent_path doc op =
     (let plist = collect_parents doc (Some op) [];
          plist = (if length plist = 0 then plist @ [GetName doc op] else plist)
      in str_join [sep] (rev plist))"

text \<open>
  \<^verbatim>\<open>if parent_path not in hierarchy: hierarchy[parent_path] = []
  hierarchy[parent_path].append(op)\<close>
\<close>

fun hierarchy_append :: "entries \<Rightarrow> string \<Rightarrow> node \<Rightarrow> entries" where
  "hierarchy_append [] k op = [(k, [op])]"
| "hierarchy_append ((k', ns) # es) k op =
     (if k' = k then (k', ns @ [op]) # es else (k', ns) # hierarchy_append es k op)"

text \<open>The test \<^verbatim>\<open>filtertype is None or (filtertype and op.GetType() == filtertype)\<close>;
  the null object has no \<^verbatim>\<open>GetType\<close>.\<close>

definition passes_filter :: "document \<Rightarrow> int option \<Rightarrow> node option \<Rightarrow> error + bool" where
  "passes_filter doc filtertype op =
     (case filtertype of
        None \<Rightarrow> Inr True
      | Some ft \<Rightarrow>
          if ft = 0 then Inr False
          else (case op of None \<Rightarrow> Inl AttributeError | Some p \<Rightarrow> Inr (GetType doc p = ft)))"

text \<open>The body of the loop of \<^verbatim>\<open>ObjectHierarchy.__init__\<close> for one pair \<open>(op, lvl)\<close>, on
  the dictionary and the maximal level so far.\<close>

definition index_pair ::
  "document \<Rightarrow> int option \<Rightarrow> node option \<times> int \<Rightarrow> entries \<times> int \<Rightarrow> error + entries \<times> int" where
  "index_pair doc filtertype pair st =
     (case pair of (op, lvl) \<Rightarrow> (case st of (hierarchy, maxl) \<Rightarrow>
        (case passes_filter doc filtertype op of
           Inl e \<Rightarrow> Inl e
         | Inr False \<Rightarrow> Inr (hierarchy, if lvl > maxl then lvl else maxl)
         | Inr True \<Rightarrow>
             (case op of
                None \<Rightarrow> Inl AttributeError
              | Some p \<Rightarrow> Inr (hierarchy_append hierarchy (parent_path doc p) p,
                              if lvl > maxl then lvl else maxl)))))"

partial_function (option) index_loop ::
  "document \<Rightarrow> int option \<Rightarrow> ObjectIterator \<Rightarrow> entries \<times> int \<Rightarrow> (error + entries \<times> int) option" where
  "index_loop doc filtertype it st =
     (case ObjectIterator_next doc it of
        (None, it') \<Rightarrow> Some (Inr st)
      | (Some pair, it') \<Rightarrow>
          (case index_pair doc filtertype pair st of
             Inl e \<Rightarrow> Some (Inl e)
           | Inr st' \<Rightarrow> index_loop doc filtertype it' st'))"

declare index_loop.simps [code]

text \<open>\<^verbatim>\<open>ObjectHierarchy(rootobj, filtertype)\<close>: without a root object the first object of
  the document is taken and the walk includes it.\<close>

definition hierarchy_iterator :: "document \<Rightarrow> node option \<Rightarrow> ObjectIterator" where
  "hierarchy_iterator doc rootobj =
     (case rootobj of
        None \<Rightarrow> ObjectIterator_init doc (GetFirstObject doc) NoStop False (- 1)
      | Some r \<Rightarrow> ObjectIterator_init doc (Some r) NoStop True (- 1))"

definition ObjectHierarchy_init ::
  "document \<Rightarrow> node option \<Rightarrow> int option \<Rightarrow> (error + ObjectHierarchy) option" where
  "ObjectHierarchy_init doc rootobj filtertype =
     (case index_loop doc filtertype (hierarchy_iterator doc rootobj) ([], - 1) of
        None \<Rightarrow> None
      | Some (Inl e) \<Rightarrow> Some (Inl e)
      | Some (Inr (hierarchy, maxl)) \<Rightarrow>
          Some (Inr \<lparr>root = (case rootobj of None \<Rightarrow> GetFirstObject doc | Some r \<Rightarrow> Some r),
                     maxlvl = maxl, entries = hierarchy\<rparr>))"

subsection \<open>get\<close>

text \<open>The loop that resolves \<^verbatim>\<open>..\<close>, over the reversed components:
  \<^verbatim>\<open>for comp in reversed(comps):
      if comp == '..': skip = True; continue
      if skip: skip = False; continue
      resolved_comps.append(comp)\<close>
\<close>

fun resolve_loop :: "string list \<Rightarrow> bool \<Rightarrow> string list \<Rightarrow> string list" where
  "resolve_loop [] skip resolved_comps = resolved_comps"
| "resolve_loop (component # comps) skip resolved_comps =
     (if component = ''..'' then resolve_loop comps True resolved_comps
      else if skip then resolve_loop comps False resolved_comps
      else resolve_loop comps skip (resolved_comps @ [component]))"

definition resolve_path :: "string \<Rightarrow> string" where
  "resolve_path path =
     (if str_contains ''..'' path
      then (let comps = str_split sep path;
                resolved_comps = resolve_loop (rev comps) False []
            in str_join [sep] (rev resolved_comps))
      else path)"

text \<open>The pattern compiled from the resolved path; \<^verbatim>\<open>path[0]\<close> raises on the empty string.\<close>

definition compile_path :: "string \<Rightarrow> error + string" where
  "compile_path path =
     (case path of
        [] \<Rightarrow> Inl IndexError
      | c # cs \<Rightarrow>
          Inr (''^'' @ (if c = CHR ''!'' then cs
                        else str_replace CHR ''*'' ''.*?'' (str_replace CHR ''?'' ''.'' path))
               @ [CHR 0x24]))"

definition get_pattern :: "string \<Rightarrow> error + string" where
  "get_pattern path = compile_path (resolve_path (str_strip path))"

text \<open>\<^verbatim>\<open>[key for key in list(self.entries.keys()) if re.match(pat, key)]\<close>\<close>

fun matching_keys :: "string \<Rightarrow> string list \<Rightarrow> error + string list" where
  "matching_keys pat [] = Inr []"
| "matching_keys pat (key # keys) =
     (case re_match pat key of
        Inl e \<Rightarrow> Inl e
      | Inr b \<Rightarrow>
          (case matching_keys pat keys of
             Inl e \<Rightarrow> Inl e
           | Inr ks \<Rightarrow> Inr (if b then key # ks else ks)))"

text \<open>\<^verbatim>\<open>for key in keys: results.extend(self.entries.get(key))\<close>; extending by the
  \<^verbatim>\<open>None\<close> of a missing key would raise \<^verbatim>\<open>TypeError\<close>.\<close>

fun extend_results :: "entries \<Rightarrow> string list \<Rightarrow> node list \<Rightarrow> error + node list" where
  "extend_results es [] results = Inr results"
| "extend_results es (key # keys) results =
     (case map_of es key of
        None \<Rightarrow> Inl TypeError
      | Some result \<Rightarrow> extend_results es keys (results @ result))"

definition get :: "ObjectHierarchy \<Rightarrow> string \<Rightarrow> error + node list" where
  "get h path =
     (case get_pattern path of
        Inl e \<Rightarrow> Inl e
      | Inr pat \<Rightarrow>
          (case matching_keys pat (map fst (entries h)) of
             Inl e \<Rightarrow> Inl e
           | Inr keys \<Rightarrow> extend_results (entries h) keys []))"

text \<open>Whether \<^verbatim>\<open>get\<close> selects the index key \<open>key\<close> for the expression \<open>path\<close>.\<close>

definition selects :: "string \<Rightarrow> string \<Rightarrow> error + bool" where
  "selects path key =
     (case get_pattern path of Inl e \<Rightarrow> Inl e | Inr pat \<Rightarrow> re_match pat key)"

section \<open>getNextObject and its callers\<close>

text \<open>
  \<^verbatim>\<open>if stopobjs and not isinstance(stopobjs, list): stopobjs = [stopobjs]\<close>: the default
  \<^verbatim>\<open>None\<close> stays \<^verbatim>\<open>None\<close>, and a membership test \<^verbatim>\<open>x in None\<close> raises \<^verbatim>\<open>TypeError\<close>.
\<close>

definition stop_list :: "stoparg \<Rightarrow> node option list option" where
  "stop_list stopobj =
     (case stopobj of NoStop \<Rightarrow> None | StopObject s \<Rightarrow> Some [Some s] | StopList l \<Rightarrow> Some l)"

text \<open>
  \<^verbatim>\<open>while (not obj.GetNext() and obj.GetUp() and obj.GetUp() not in stopobjs):
      if (obj in stopobjs or obj.GetUp() in stopobjs): return None
      obj = obj.GetUp()\<close>
  The result is the object the loop ends on, or \<open>None\<close> when it returned \<^verbatim>\<open>None\<close>.
\<close>

function climb :: "document \<Rightarrow> node option list \<Rightarrow> node \<Rightarrow> node option" where
  "climb doc stops obj =
     (case GetNext doc obj of
        Some n \<Rightarrow> Some obj
      | None \<Rightarrow>
         (case GetUp doc obj of
            None \<Rightarrow> Some obj
          | Some up \<Rightarrow>
             if Some up \<in> set stops then Some obj
             else if Some obj \<in> set stops \<or> Some up \<in> set stops then None
             else climb doc stops up))"
  by pat_completeness auto
termination
  by (relation "measure (\<lambda>(doc, stops, obj). length obj)")
     (auto simp: GetUp_def split: list.splits if_splits)

declare climb.simps [simp del]

text \<open>With \<^verbatim>\<open>stopobjs\<close> left \<^verbatim>\<open>None\<close>, both membership tests that come first raise, so the
  loop guarded by \<^verbatim>\<open>stopobjs is None\<close> is never reached.\<close>

definition getNextObject :: "document \<Rightarrow> node option \<Rightarrow> stoparg \<Rightarrow> error + node option" where
  "getNextObject doc obj stopobj =
     (case obj of
        None \<Rightarrow> Inr None
      | Some ob \<Rightarrow>
         (case GetDown doc ob of
            Some d \<Rightarrow>
              (case stop_list stopobj of
                 None \<Rightarrow> Inl TypeError
               | Some stops \<Rightarrow>
                   if GetNext doc ob \<in> set stops \<or> Some d \<in> set stops then Inr None
                   else Inr (Some d))
          | None \<Rightarrow>
              (case stop_list stopobj of
                 None \<Rightarrow> Inl TypeError
               | Some stops \<Rightarrow>
                   if Some ob \<in> set stops then Inr None
                   else (case climb doc stops ob of
                           None \<Rightarrow> Inr None
                         | Some ob' \<Rightarrow>
                             (case GetNext doc ob' of
                                Some n \<Rightarrow> if Some n \<in> set stops then Inr None else Inr (Some n)
                              | None \<Rightarrow> Inr None)))))"

text \<open>
  \<^verbatim>\<open>while obj:
      curname = obj.GetName()
      if curname == name: result.append(obj)
      obj = getNextObject(obj)\<close>
\<close>

partial_function (option) findObjects_loop ::
  "document \<Rightarrow> string \<Rightarrow> node option \<Rightarrow> node list \<Rightarrow> (error + node list) option" where
  "findObjects_loop doc name obj result =
     (case obj of
        None \<Rightarrow> Some (Inr result)
      | Some ob \<Rightarrow>
          (let result' = (if GetName doc ob = name then result @ [ob] else result)
           in case getNextObject doc (Some ob) NoStop of
                Inl e \<Rightarrow> Some (Inl e)
              | Inr obj' \<Rightarrow> findObjects_loop doc name obj' result'))"

declare findObjects_loop.simps [code]

text \<open>\<^verbatim>\<open>findObjects(name)\<close> for a string \<^verbatim>\<open>name\<close> and the active document \<open>doc\<close>.\<close>

definition findObjects :: "document \<Rightarrow> string \<Rightarrow> (error + node list) option" where
  "findObjects doc name =
     (case GetFirstObject doc of
        None \<Rightarrow> Some (Inr [])
      | Some ob \<Rightarrow> findObjects_loop doc name (Some ob) [])"

text \<open>\<^verbatim>\<open>getActiveObjects(doc)\<close>; \<open>active\<close> is the selection bit of an object.\<close>

partial_function (option) getActiveObjects_loop ::
  "document \<Rightarrow> (node \<Rightarrow> bool) \<Rightarrow> node option \<Rightarrow> node list \<Rightarrow> (error + node list) option" where
  "getActiveObjects_loop doc active obj lst =
     (case obj of
        None \<Rightarrow> Some (Inr lst)
      | Some ob \<Rightarrow>
          (let lst' = (if active ob then lst @ [ob] else lst)
           in case getNextObject doc (Some ob) NoStop of
                Inl e \<Rightarrow> Some (Inl e)
              | Inr obj' \<Rightarrow> getActiveObjects_loop doc active obj' lst'))"

declare getActiveObjects_loop.simps [code]

definition getActiveObjects :: "document \<Rightarrow> (node \<Rightarrow> bool) \<Rightarrow> (error + node list) option" where
  "getActiveObjects doc active = getActiveObjects_loop doc active (GetFirstObject doc) []"

section \<open>Document order\<close>

text \<open>
  The depth-first pre-order listing of the objects \<open>ts\<close> that sit under position \<open>ps\<close> from
  sibling index \<open>i\<close> on: each object, then its descendants, then its later siblings.
\<close>

fun preorder :: "node \<Rightarrow> nat \<Rightarrow> obj list \<Rightarrow> node list" where
  "preorder ps i [] = []"
| "preorder ps i (Obj n ty cs # ts) = (i # ps) # preorder (i # ps) 0 cs @ preorder ps (Suc i) ts"

text \<open>The proper descendants of an object, in pre-order.\<close>

definition descendants :: "document \<Rightarrow> node \<Rightarrow> node list" where
  "descendants doc p = (case below doc p of None \<Rightarrow> [] | Some ts \<Rightarrow> preorder p 0 ts)"

text \<open>The later siblings of an object, each with its descendants, in pre-order.\<close>

definition later_siblings :: "document \<Rightarrow> node \<Rightarrow> node list" where
  "later_siblings doc p =
     (case p of [] \<Rightarrow> []
      | i # ps \<Rightarrow> (case below doc ps of None \<Rightarrow> [] | Some ts \<Rightarrow> preorder ps (Suc i) (drop (Suc i) ts)))"

text \<open>
  Everything that comes after the subtree of \<open>p\<close> in document order and still lies under
  the boundary object \<open>b\<close> (in the whole document when \<open>b = None\<close>): the later siblings of
  \<open>p\<close> with their subtrees, then those of its parent, and so on upwards.
\<close>

fun following :: "document \<Rightarrow> node option \<Rightarrow> node \<Rightarrow> node list" where
  "following doc b [] = []"
| "following doc b (i # ps) =
     later_siblings doc (i # ps) @ (if ps = [] \<or> Some ps = b then [] else following doc b ps)"

text \<open>\<open>q\<close> lies strictly under \<open>p\<close>: the handle of \<open>p\<close> is a proper suffix of that of \<open>q\<close>.\<close>

definition under :: "node \<Rightarrow> node \<Rightarrow> bool" where
  "under p q = (suffix p q \<and> q \<noteq> p)"

text \<open>The pairs of a walk over the objects \<open>qs\<close>: the level of an object is its depth in
  the document plus the base level.\<close>

definition with_levels :: "int \<Rightarrow> node list \<Rightarrow> (node option \<times> int) list" where
  "with_levels startlvl qs = map (\<lambda>q. (Some q, startlvl + int (length q))) qs"

text \<open>The two stop lists that the constructor builds when no stop object is passed: the
  empty one, with no boundary, and the one holding the start object \<open>s\<close>, with the walk
  strictly under \<open>s\<close>.\<close>

definition bounded_by :: "node option \<Rightarrow> node option list \<Rightarrow> node \<Rightarrow> bool" where
  "bounded_by b stops p =
     (case b of None \<Rightarrow> stops = [] | Some s \<Rightarrow> stops = [Some s] \<and> under s p)"

text \<open>
  Document order on handles, read from the top-level index down: an object comes before
  each of its descendants, and of two objects in different branches the one in the branch
  with the smaller sibling index comes first.
\<close>

fun path_less :: "nat list \<Rightarrow> nat list \<Rightarrow> bool" where
  "path_less [] [] = False"
| "path_less [] (y # ys) = True"
| "path_less (x # xs) [] = False"
| "path_less (x # xs) (y # ys) = (x < y \<or> (x = y \<and> path_less xs ys))"

definition before :: "node \<Rightarrow> node \<Rightarrow> bool" where
  "before p q = path_less (rev p) (rev q)"

section \<open>Example documents\<close>

text \<open>The tree of the end-to-end scenario: \<open>R\<close> with the children \<open>A\<close> and \<open>B\<close>, and \<open>A1\<close>
  under \<open>A\<close>.\<close>

definition example_doc :: document where
  "example_doc = [Obj ''R'' 0 [Obj ''A'' 0 [Obj ''A1'' 0 []], Obj ''B'' 0 []]]"

section \<open>Parent paths and \<^verbatim>\<open>..\<close> as the specification words them\<close>

text \<open>The proper ancestors of an object, the top-level one first.\<close>

fun ancestors :: "node \<Rightarrow> node list" where
  "ancestors [] = []"
| "ancestors (i # ps) = (if ps = [] then [] else ancestors ps @ [ps])"

text \<open>
  The index key as the specification describes it: the names of the ancestors met on the
  way up from the object, stopping at and excluding the snapshot root \<open>rootobj\<close>, in
  root-to-parent order and joined by the separator; the object's own name when there are
  none.
\<close>

function ancestors_below_root :: "document \<Rightarrow> node option \<Rightarrow> node \<Rightarrow> string list \<Rightarrow> string list" where
  "ancestors_below_root doc rootobj opp plist =
     (case GetUp doc opp of
        None \<Rightarrow> plist
      | Some up \<Rightarrow>
          if Some up = rootobj then plist
          else ancestors_below_root doc rootobj up (plist @ [GetName doc up]))"
  by pat_completeness auto
termination
  by (relation "measure (\<lambda>(doc, rootobj, opp, plist). length opp)")
     (auto simp: GetUp_def split: list.splits if_splits)

declare ancestors_below_root.simps [simp del]

definition path_below_root :: "document \<Rightarrow> node option \<Rightarrow> node \<Rightarrow> string" where
  "path_below_root doc rootobj op =
     (let plist = ancestors_below_root doc rootobj op []
      in str_join [sep] (rev (if plist = [] then [GetName doc op] else plist)))"

text \<open>
  The components that remain when one ancestor is popped for each \<^verbatim>\<open>..\<close>: read from
  the left, a \<^verbatim>\<open>..\<close> removes the last component kept so far, if there is one.
\<close>

fun pop_parent_hops :: "string list \<Rightarrow> string list \<Rightarrow> string list" where
  "pop_parent_hops kept [] = rev kept"
| "pop_parent_hops kept (c # cs) =
     (if c = ''..'' then pop_parent_hops (tl kept) cs else pop_parent_hops (c # kept) cs)"

text \<open>
  The components that the loop of \<^verbatim>\<open>get\<close> keeps, read from the left: a component stays
  unless it is \<^verbatim>\<open>..\<close> or the next one is.
\<close>

fun drop_parent_hops :: "string list \<Rightarrow> string list" where
  "drop_parent_hops [] = []"
| "drop_parent_hops [c] = (if c = ''..'' then [] else [c])"
| "drop_parent_hops (c # d # cs) =
     (if c = ''..'' \<or> d = ''..'' then drop_parent_hops (d # cs)
      else c # drop_parent_hops (d # cs))"

section \<open>The index loop over a finished walk\<close>

text \<open>The loop body of \<^verbatim>\<open>ObjectHierarchy.__init__\<close> run over the list of pairs that a walk
  has yielded.\<close>

fun index_all ::
  "document \<Rightarrow> int option \<Rightarrow> (node option \<times> int) list \<Rightarrow> entries \<times> int \<Rightarrow> error + entries \<times> int" where
  "index_all doc filtertype [] st = Inr st"
| "index_all doc filtertype (pair # pairs) st =
     (case index_pair doc filtertype pair st of
        Inl e \<Rightarrow> Inl e
      | Inr st' \<Rightarrow> index_all doc filtertype pairs st')"

section \<open>Wildcard expressions as the specification words them\<close>

text \<open>The characters that start a construct of their own in a regular expression; a \<^verbatim>\<open>]\<close>
  or \<^verbatim>\<open>}\<close> alone is not among them.\<close>

definition metachars :: string where
  "metachars = ''.^*+?{[|()'' @ [CHR 0x24, CHR 0x5C]"

definition plain :: "char \<Rightarrow> bool" where
  "plain c = (c \<notin> set metachars)"

text \<open>A wildcard expression: plain characters, \<^verbatim>\<open>?\<close> and \<^verbatim>\<open>*\<close>.\<close>

definition wildcard :: "string \<Rightarrow> bool" where
  "wildcard e = list_all (\<lambda>c. plain c \<or> c = CHR ''?'' \<or> c = CHR ''*'') e"

text \<open>
  Matching of a key against a wildcard expression: \<^verbatim>\<open>?\<close> stands for exactly one
  character, \<^verbatim>\<open>*\<close> for zero or more characters, every other character for itself, and the
  whole key has to be used up.
\<close>

fun glob :: "string \<Rightarrow> string \<Rightarrow> bool" where
  "glob [] k = (k = [])"
| "glob (c # cs) k =
     (if c = CHR ''?'' then (case k of [] \<Rightarrow> False | x # xs \<Rightarrow> glob cs xs)
      else if c = CHR ''*'' then
        (glob cs k \<or> (case k of [] \<Rightarrow> False | x # xs \<Rightarrow> glob (c # cs) xs))
      else (case k of [] \<Rightarrow> False | x # xs \<Rightarrow> x = c \<and> glob cs xs))"

text \<open>The regular expression text and the parsed piece that one character of a wildcard
  expression turns into.\<close>

definition wildcard_text :: "char \<Rightarrow> string" where
  "wildcard_text c = (if c = CHR ''?'' then ''.'' else if c = CHR ''*'' then ''.*?'' else [c])"

definition wildcard_piece :: "char \<Rightarrow> piece" where
  "wildcard_piece c =
     (if c = CHR ''?'' then Chr AnyChar
      else if c = CHR ''*'' then Repeat AnyChar ZeroOrMore True
      else Chr (Lit c))"

text \<open>The snapshot of the example tree taken from \<open>R\<close>.\<close>

definition example_snapshot :: ObjectHierarchy where
  "example_snapshot =
     \<lparr>root = Some [0], maxlvl = 2,
      entries = [(''R'', [[0, 0], [1, 0]]), (''R/A'', [[0, 0, 0]])]\<rparr>"

text \<open>A document with the objects \<open>x\<close> under \<open>a/c\<close> and \<open>y\<close> under a top-level \<open>c\<close>.\<close>

definition hop_doc :: document where
  "hop_doc = [Obj ''a'' 0 [Obj ''c'' 0 [Obj ''x'' 0 []]], Obj ''c'' 0 [Obj ''y'' 0 []]]"

text \<open>An index with the keys of the wildcard examples and the key \<^verbatim>\<open>axb\<close>, and an index
  with a key that ends in a newline.\<close>

definition wildcard_snapshot :: ObjectHierarchy where
  "wildcard_snapshot =
     \<lparr>root = None, maxlvl = 2,
      entries = [(''a/b'', [[0, 0, 0]]), (''a/bc'', [[0, 1, 0]]), (''a/'', [[0, 2, 0]]),
                 (''ax/b'', [[0, 0, 1]]), (''axb'', [[0, 2]])]\<rparr>"

definition newline_snapshot :: ObjectHierarchy where
  "newline_snapshot =
     \<lparr>root = None, maxlvl = 2, entries = [(''a/'' @ [newline], [[0, 0, 0]])]\<rparr>"

section \<open>The walk of the iterator\<close>

subsection \<open>Links and document order\<close>

lemma alive_Cons:
  "alive doc (i # ps) \<longleftrightarrow> (\<exists>ts. below doc ps = Some ts \<and> i < length ts)"
  by (auto simp: alive_def split: option.splits)

lemma alive_parent: "alive doc (i # ps) \<Longrightarrow> ps \<noteq> [] \<Longrightarrow> alive doc ps"
  by (auto simp: alive_def split: option.splits)

lemma start_level_alive: "p \<noteq> [] \<Longrightarrow> start_level doc (Some p) l = l + int (length p)"
proof (induction p arbitrary: l)
  case Nil
  then show ?case by simp
next
  case (Cons i ps)
  show ?case
  proof (cases "ps = []")
    case True
    then show ?thesis by (simp add: GetUp_def)
  next
    case False
    with Cons.IH [of "l + 1"] show ?thesis by (simp add: GetUp_def)
  qed
qed

lemma preorder_drop:
  "i < length ts \<Longrightarrow>
   preorder ps i (drop i ts) = (i # ps) # preorder (i # ps) 0 (obj_children (ts ! i)) @ preorder ps (Suc i) (drop (Suc i) ts)"
proof -
  assume a: "i < length ts"
  then have "drop i ts = ts ! i # drop (Suc i) ts" by (simp add: Cons_nth_drop_Suc)
  then show ?thesis by (cases "ts ! i") simp
qed

lemma GetDown_alive:
  assumes "alive doc p" and "GetDown doc p = Some d"
  shows "d = 0 # p \<and> alive doc d \<and> descendants doc p = d # descendants doc d @ later_siblings doc d"
proof -
  from assms obtain i ps where p: "p = i # ps" by (cases p) (auto simp: alive_def)
  from assms(2) obtain t ts where b: "below doc p = Some (t # ts)" and d: "d = 0 # p"
    by (auto simp: GetDown_def p split: option.splits list.splits)
  have bd: "below doc d = Some (obj_children t)" using b d by simp
  have "preorder p 0 (drop 0 (t # ts)) = (0 # p) # preorder (0 # p) 0 (obj_children ((t # ts) ! 0)) @ preorder p (Suc 0) (drop (Suc 0) (t # ts))"
    by (rule preorder_drop) simp
  then have "descendants doc p = d # descendants doc d @ later_siblings doc d"
    using b bd d by (simp add: descendants_def later_siblings_def)
  moreover have "alive doc d" using bd d by (simp add: alive_def)
  ultimately show ?thesis using d by simp
qed

lemma GetDown_leaf:
  assumes "alive doc p" and "GetDown doc p = None"
  shows "descendants doc p = []"
  using assms
  by (cases p) (auto simp: GetDown_def descendants_def alive_def split: option.splits list.splits)

lemma GetNext_alive:
  assumes "alive doc p" and "GetNext doc p = Some n"
  shows "\<exists>i ps. p = i # ps \<and> n = Suc i # ps \<and> alive doc n \<and>
           later_siblings doc p = n # descendants doc n @ later_siblings doc n"
proof -
  from assms obtain i ps where p: "p = i # ps" by (cases p) (auto simp: alive_def)
  from assms(2) obtain ts where b: "below doc ps = Some ts" and l: "Suc i < length ts" and n: "n = Suc i # ps"
    by (auto simp: GetNext_def p split: option.splits if_splits)
  have "preorder ps (Suc i) (drop (Suc i) ts) =
        (Suc i # ps) # preorder (Suc i # ps) 0 (obj_children (ts ! Suc i)) @ preorder ps (Suc (Suc i)) (drop (Suc (Suc i)) ts)"
    using l by (rule preorder_drop)
  then have "later_siblings doc p = n # descendants doc n @ later_siblings doc n"
    using b l n p by (simp add: descendants_def later_siblings_def)
  moreover have "alive doc n" using b l n by (simp add: alive_Cons)
  ultimately show ?thesis using p n by simp
qed

lemma GetNext_last:
  assumes "alive doc p" and "GetNext doc p = None"
  shows "later_siblings doc p = []"
  using assms
  by (cases p) (auto simp: GetNext_def later_siblings_def alive_def split: option.splits if_splits)

lemma not_suffix_Cons_self: "\<not> suffix (i # ps) ps"
proof
  assume "suffix (i # ps) ps"
  then have "length (i # ps) \<le> length ps" by (rule suffix_length_le)
  then show False by simp
qed

lemma under_Cons: "under s (i # ps) \<longleftrightarrow> ps = s \<or> under s ps"
  by (auto simp: under_def suffix_Cons not_suffix_Cons_self)

lemma under_length: "under s p \<Longrightarrow> length s < length p"
  by (auto simp: under_def suffix_def)

lemma bounded_by_sibling: "bounded_by b stops (i # ps) \<Longrightarrow> bounded_by b stops (j # ps)"
  by (auto simp: bounded_by_def under_Cons split: option.splits)

lemma bounded_by_child: "bounded_by b stops p \<Longrightarrow> bounded_by b stops (j # p)"
  by (auto simp: bounded_by_def under_Cons split: option.splits)

lemma bounded_by_parent: "bounded_by b stops (i # ps) \<Longrightarrow> Some ps \<noteq> b \<Longrightarrow> bounded_by b stops ps"
  by (auto simp: bounded_by_def under_Cons split: option.splits)

lemma bounded_by_not_stop: "bounded_by b stops p \<Longrightarrow> Some p \<notin> set stops"
  by (auto simp: bounded_by_def under_def split: option.splits)

lemma bounded_by_stop_iff: "bounded_by b stops p \<Longrightarrow> Some q \<in> set stops \<longleftrightarrow> b = Some q"
  by (auto simp: bounded_by_def split: option.splits)

lemma bounded_by_None: "bounded_by b stops p \<Longrightarrow> None \<notin> set stops"
  by (auto simp: bounded_by_def split: option.splits)

lemma bounded_by_neq: "bounded_by b stops p \<Longrightarrow> Some p \<noteq> b"
  by (auto simp: bounded_by_def under_def split: option.splits)

subsection \<open>One step and the whole walk\<close>

lemma following_child:
  "p \<noteq> [] \<Longrightarrow> Some p \<noteq> b \<Longrightarrow> following doc b (j # p) = later_siblings doc (j # p) @ following doc b p"
  by simp

lemma ascend_spec:
  assumes "alive doc p" and "bounded_by b stops p"
  shows "(following doc b p = [] \<longrightarrow>
            (case ascend doc stops p lvl of (None, l') \<Rightarrow> True | (Some p', l') \<Rightarrow> GetNext doc p' = None))
       \<and> (\<forall>q qs. following doc b p = q # qs \<longrightarrow>
            (\<exists>p'. ascend doc stops p lvl = (Some p', lvl - int (length p) + int (length q))
                 \<and> GetNext doc p' = Some q \<and> alive doc q \<and> bounded_by b stops q
                 \<and> descendants doc q @ following doc b q = qs))"
  using assms
proof (induction p arbitrary: lvl)
  case Nil
  then show ?case by (simp add: alive_def)
next
  case (Cons i ps)
  note al = \<open>alive doc (i # ps)\<close> and bd = \<open>bounded_by b stops (i # ps)\<close>
  show ?case
  proof (cases "GetNext doc (i # ps)")
    case (Some n)
    from GetNext_alive [OF al Some]
    have n: "n = Suc i # ps" and aln: "alive doc n"
      and ls: "later_siblings doc (i # ps) = n # descendants doc n @ later_siblings doc n"
      by auto
    have asc: "ascend doc stops (i # ps) lvl = (Some (i # ps), lvl)"
      using Some by (subst ascend.simps) simp
    have fol: "following doc b (i # ps) = n # descendants doc n @ following doc b n"
      using ls n by simp
    have bn: "bounded_by b stops n" using bd n by (auto intro: bounded_by_sibling)
    show ?thesis using asc fol Some aln bn n by simp
  next
    case None
    have ls: "later_siblings doc (i # ps) = []" using al None by (rule GetNext_last)
    show ?thesis
    proof (cases "ps = []")
      case True
      then have asc: "ascend doc stops (i # ps) lvl = (Some (i # ps), lvl)"
        using None by (subst ascend.simps) (simp add: GetUp_def)
      show ?thesis using asc ls True None by simp
    next
      case False
      then have up: "GetUp doc (i # ps) = Some ps" by (simp add: GetUp_def)
      show ?thesis
      proof (cases "Some ps = b")
        case True
        then have "Some ps \<in> set stops" using bd by (auto simp: bounded_by_def)
        then have asc: "ascend doc stops (i # ps) lvl = (None, lvl)"
          using None up by (subst ascend.simps) simp
        show ?thesis using asc ls True by simp
      next
        case nb: False
        then have "Some ps \<notin> set stops" using bd by (auto simp: bounded_by_stop_iff)
        moreover have "Some (i # ps) \<notin> set stops" using bd by (rule bounded_by_not_stop)
        ultimately have asc: "ascend doc stops (i # ps) lvl = ascend doc stops ps (lvl - 1)"
          using None up by (subst ascend.simps) simp
        have fol: "following doc b (i # ps) = following doc b ps"
          using ls False nb by simp
        have alp: "alive doc ps" using al False by (rule alive_parent)
        have bp: "bounded_by b stops ps" using bd nb by (rule bounded_by_parent)
        have lv: "lvl - 1 - int (length ps) = lvl - int (length (i # ps))" by simp
        from Cons.IH [OF alp bp, of "lvl - 1"] show ?thesis
          unfolding asc fol lv .
      qed
    qed
  qed
qed

lemma next_spec:
  assumes al: "alive doc p" and bd: "bounded_by b (stopobjs it) p"
    and cur: "curobj it = Some p" and lvl: "curlvl it = l + int (length p)" and ini: "\<not> init it"
  shows "(descendants doc p @ following doc b p = [] \<longrightarrow> fst (ObjectIterator_next doc it) = None)
       \<and> (\<forall>q qs. descendants doc p @ following doc b p = q # qs \<longrightarrow>
            ObjectIterator_next doc it =
              (Some (Some q, l + int (length q)), it\<lparr>curobj := Some q, curlvl := l + int (length q)\<rparr>)
            \<and> alive doc q \<and> bounded_by b (stopobjs it) q
            \<and> descendants doc q @ following doc b q = qs)"
proof (cases "GetDown doc p")
  case (Some d)
  from GetDown_alive [OF al Some]
  have d: "d = 0 # p" and ald: "alive doc d"
    and de: "descendants doc p = d # descendants doc d @ later_siblings doc d" by auto
  have pne: "p \<noteq> []" using al by (auto simp: alive_def)
  have bdd: "bounded_by b (stopobjs it) d" using bd d by (simp add: bounded_by_child)
  have "Some p \<noteq> b" using bd by (rule bounded_by_neq)
  then have fol: "following doc b d = later_siblings doc d @ following doc b p"
    using pne d by simp
  have s1: "Some d \<notin> set (stopobjs it)" using bdd by (rule bounded_by_not_stop)
  have s2: "GetNext doc p \<notin> set (stopobjs it)"
  proof (cases "GetNext doc p")
    case None
    then show ?thesis using bd by (simp add: bounded_by_None)
  next
    case (Some n)
    from GetNext_alive [OF al Some] obtain i ps where "p = i # ps" "n = Suc i # ps" by auto
    then have "bounded_by b (stopobjs it) n" using bd by (auto intro: bounded_by_sibling)
    then show ?thesis using Some by (simp add: bounded_by_not_stop)
  qed
  have nx: "ObjectIterator_next doc it =
      (Some (Some d, curlvl it + 1), it\<lparr>curobj := Some d, curlvl := curlvl it + 1\<rparr>)"
    using Some cur ini s1 s2 by (simp add: ObjectIterator_next_def)
  have "curlvl it + 1 = l + int (length d)" using lvl d by simp
  then show ?thesis using nx de fol ald bdd by simp
next
  case None
  have de: "descendants doc p = []" using al None by (rule GetDown_leaf)
  have s: "Some p \<notin> set (stopobjs it)" using bd by (rule bounded_by_not_stop)
  note asc = ascend_spec [OF al bd, of "curlvl it"]
  show ?thesis
  proof (cases "following doc b p")
    case Nil
    with asc have "case ascend doc (stopobjs it) p (curlvl it) of
        (None, l') \<Rightarrow> True | (Some p', l') \<Rightarrow> GetNext doc p' = None" by simp
    then have "fst (ObjectIterator_next doc it) = None"
      using None cur ini s by (auto simp: ObjectIterator_next_def split: prod.splits option.splits)
    then show ?thesis using de Nil by simp
  next
    case (Cons q qs)
    with asc obtain p' where a: "ascend doc (stopobjs it) p (curlvl it) = (Some p', curlvl it - int (length p) + int (length q))"
      and n: "GetNext doc p' = Some q" and alq: "alive doc q" and bq: "bounded_by b (stopobjs it) q"
      and r: "descendants doc q @ following doc b q = qs" by blast
    have lq: "curlvl it - int (length p) + int (length q) = l + int (length q)" using lvl by simp
    have sq: "Some q \<notin> set (stopobjs it)" using bq by (rule bounded_by_not_stop)
    have nx: "ObjectIterator_next doc it =
      (Some (Some q, l + int (length q)), it\<lparr>curobj := Some q, curlvl := l + int (length q)\<rparr>)"
      using None cur ini s a n sq lq by (simp add: ObjectIterator_next_def)
    show ?thesis using nx de Cons alq bq r by simp
  qed
qed

lemma drain_spec:
  assumes "alive doc p" and "bounded_by b (stopobjs it) p"
    and "curobj it = Some p" and "curlvl it = l + int (length p)" and "\<not> init it"
  shows "drain doc it = Some (with_levels l (descendants doc p @ following doc b p))"
  using assms
proof (induction "descendants doc p @ following doc b p" arbitrary: p it)
  case Nil
  from next_spec [OF Nil(2-6)] Nil(1) have "fst (ObjectIterator_next doc it) = None" by simp
  then have "drain doc it = Some []"
    by (subst drain.simps) (auto split: prod.splits)
  then show ?case using Nil(1) [symmetric] by (simp add: with_levels_def)
next
  case (Cons q qs)
  let ?it' = "it\<lparr>curobj := Some q, curlvl := l + int (length q)\<rparr>"
  from next_spec [OF Cons(3-7)] Cons(2) [symmetric]
  have nx: "ObjectIterator_next doc it = (Some (Some q, l + int (length q)), ?it')"
    and alq: "alive doc q" and bq: "bounded_by b (stopobjs it) q"
    and r: "qs = descendants doc q @ following doc b q" by auto
  have "drain doc ?it' = Some (with_levels l (descendants doc q @ following doc b q))"
    by (rule Cons(1) [OF r]) (use alq bq Cons(7) in simp_all)
  then have "drain doc it = Some ((Some q, l + int (length q)) # with_levels l qs)"
    using nx r by (subst drain.simps) simp
  then show ?case using Cons(2) [symmetric] by (simp add: with_levels_def)
qed

lemma full_walk:
  assumes al: "alive doc p"
  shows "iterate doc (Some p) NoStop False l =
         Some (with_levels l (p # descendants doc p @ following doc None p))"
proof -
  have pne: "p \<noteq> []" using al by (auto simp: alive_def)
  let ?it = "ObjectIterator_init doc (Some p) NoStop False l"
  have lv: "curlvl ?it = l + int (length p)"
    using pne by (simp add: ObjectIterator_init_def Let_def start_level_alive del: start_level.simps)
  have nx: "ObjectIterator_next doc ?it = (Some (Some p, l + int (length p)), ?it\<lparr>init := False\<rparr>)"
    using lv by (simp add: ObjectIterator_next_def) (simp add: ObjectIterator_init_def Let_def)
  have "drain doc (?it\<lparr>init := False\<rparr>) = Some (with_levels l (descendants doc p @ following doc None p))"
    by (rule drain_spec [OF al]) (use lv in \<open>simp_all add: bounded_by_def ObjectIterator_init_def Let_def\<close>)
  then show ?thesis
    unfolding iterate_def using nx by (subst drain.simps) (simp add: with_levels_def)
qed

lemma children_walk:
  assumes al: "alive doc p"
  shows "iterate doc (Some p) NoStop True l = Some (with_levels l (descendants doc p))"
proof -
  have pne: "p \<noteq> []" using al by (auto simp: alive_def)
  let ?it = "ObjectIterator_init doc (Some p) NoStop True l"
  have lv: "curlvl ?it = l + int (length p)"
    using pne by (simp add: ObjectIterator_init_def Let_def start_level_alive del: start_level.simps)
  have st: "stopobjs ?it = [Some p]" and cu: "curobj ?it = Some p" and ini: "\<not> init ?it"
    by (simp_all add: ObjectIterator_init_def Let_def)
  show ?thesis
  proof (cases "GetDown doc p")
    case None
    have "descendants doc p = []" using al None by (rule GetDown_leaf)
    moreover have "fst (ObjectIterator_next doc ?it) = None"
      using None st cu ini by (simp add: ObjectIterator_next_def)
    then have "drain doc ?it = Some []" by (subst drain.simps) (auto split: prod.splits)
    ultimately show ?thesis by (simp add: iterate_def with_levels_def)
  next
    case (Some d)
    from GetDown_alive [OF al Some]
    have d: "d = 0 # p" and ald: "alive doc d"
      and de: "descendants doc p = d # descendants doc d @ later_siblings doc d" by auto
    have fol: "following doc (Some p) d = later_siblings doc d" using d by simp
    have s2: "GetNext doc p \<noteq> Some p"
      using pne by (cases p) (auto simp: GetNext_def split: option.splits)
    let ?it' = "?it\<lparr>curobj := Some d, curlvl := curlvl ?it + 1\<rparr>"
    have nx: "ObjectIterator_next doc ?it = (Some (Some d, l + int (length d)), ?it')"
      using Some st cu ini s2 d lv by (simp add: ObjectIterator_next_def)
    have "drain doc ?it' = Some (with_levels l (descendants doc d @ following doc (Some p) d))"
      by (rule drain_spec [OF ald])
         (use st ini lv d in \<open>simp_all add: bounded_by_def under_Cons\<close>)
    then show ?thesis
      unfolding iterate_def using nx de fol by (subst drain.simps) (simp add: with_levels_def)
  qed
qed

subsection \<open>The walk is increasing in document order\<close>

lemma path_less_append: "path_less (zs @ xs) (zs @ ys) = path_less xs ys"
  by (induction zs) simp_all

lemma path_less_irrefl: "\<not> path_less xs xs"
  by (induction xs) simp_all

lemma before_irrefl: "\<not> before p p"
  by (simp add: before_def path_less_irrefl)

lemma before_extend: "ys \<noteq> [] \<Longrightarrow> before p (ys @ p)"
proof -
  assume "ys \<noteq> []"
  then obtain a as where "rev ys = a # as" by (cases "rev ys") auto
  then have "path_less (rev p @ []) (rev p @ rev ys)" unfolding path_less_append by simp
  then show ?thesis by (simp add: before_def)
qed

lemma before_branch: "i < k \<Longrightarrow> before (xs @ i # ps) (ys @ k # ps)"
proof -
  assume "i < k"
  then have "path_less (rev ps @ i # rev xs) (rev ps @ k # rev ys)"
    unfolding path_less_append by simp
  then show ?thesis by (simp add: before_def)
qed

lemma preorder_shape:
  "q \<in> set (preorder ps i ts) \<Longrightarrow> \<exists>xs j. q = xs @ j # ps \<and> i \<le> j"
proof (induction ps i ts arbitrary: q rule: preorder.induct)
  case (1 ps i)
  then show ?case by simp
next
  case (2 ps i n ty cs ts)
  from "2.prems" consider "q = i # ps" | "q \<in> set (preorder (i # ps) 0 cs)" | "q \<in> set (preorder ps (Suc i) ts)"
    by auto
  then show ?case
  proof cases
    case 1
    then show ?thesis by auto
  next
    case 2
    from "2.IH"(1) [OF this] obtain xs j where "q = xs @ j # i # ps" by auto
    then have "q = (xs @ [j]) @ i # ps" by simp
    then show ?thesis by blast
  next
    case 3
    from "2.IH"(2) [OF this] obtain xs j where "q = xs @ j # ps" "Suc i \<le> j" by auto
    then show ?thesis by (intro exI [of _ xs] exI [of _ j]) simp
  qed
qed

lemma preorder_sorted: "sorted_wrt before (preorder ps i ts)"
proof (induction ps i ts rule: preorder.induct)
  case (1 ps i)
  then show ?case by simp
next
  case (2 ps i n ty cs ts)
  have a: "before (i # ps) q" if "q \<in> set (preorder (i # ps) 0 cs)" for q
  proof -
    from preorder_shape [OF that] obtain xs j where "q = (xs @ [j]) @ i # ps" by auto
    then show ?thesis using before_extend [of "xs @ [j]" "i # ps"] by simp
  qed
  have b: "before (ys @ i # ps) q" if "q \<in> set (preorder ps (Suc i) ts)" for q ys
  proof -
    from preorder_shape [OF that] obtain xs j where "q = xs @ j # ps" "Suc i \<le> j" by auto
    then show ?thesis using before_branch [of i j ys ps xs] by simp
  qed
  have c: "before r q" if "r \<in> set (preorder (i # ps) 0 cs)" "q \<in> set (preorder ps (Suc i) ts)" for r q
  proof -
    from preorder_shape [OF that(1)] obtain xs j where "r = (xs @ [j]) @ i # ps" by auto
    then show ?thesis using b [OF that(2), of "xs @ [j]"] by simp
  qed
  show ?case using "2.IH" a b [of _ "[]"] c by (auto simp: sorted_wrt_append)
qed

lemma sorted_wrt_before_distinct: "sorted_wrt before qs \<Longrightarrow> distinct qs"
  by (induction qs) (auto simp: before_irrefl)

lemma following_shape:
  "q \<in> set (following doc b p) \<Longrightarrow> \<exists>k xs j. k < length p \<and> q = xs @ j # drop (Suc k) p \<and> p ! k < j"
proof (induction p)
  case Nil
  then show ?case by simp
next
  case (Cons i ps)
  from Cons.prems consider "q \<in> set (later_siblings doc (i # ps))" | "q \<in> set (following doc b ps)"
    by (auto split: if_splits)
  then show ?case
  proof cases
    case 1
    then obtain xs j where "q = xs @ j # ps" "Suc i \<le> j"
      by (auto simp: later_siblings_def split: option.splits dest: preorder_shape)
    then show ?thesis by (intro exI [of _ 0] exI [of _ xs] exI [of _ j]) simp
  next
    case 2
    from Cons.IH [OF this] obtain k xs j where "k < length ps" "q = xs @ j # drop (Suc k) ps" "ps ! k < j"
      by auto
    then show ?thesis by (intro exI [of _ "Suc k"] exI [of _ xs] exI [of _ j]) simp
  qed
qed

lemma split_at: "k < length p \<Longrightarrow> p = take k p @ p ! k # drop (Suc k) p"
  by (simp add: id_take_nth_drop)

lemma before_following:
  assumes "q \<in> set (following doc b p)"
  shows "before (ys @ p) q"
proof -
  from following_shape [OF assms] obtain k xs j
    where k: "k < length p" and q: "q = xs @ j # drop (Suc k) p" and lt: "p ! k < j" by auto
  have "ys @ p = (ys @ take k p) @ p ! k # drop (Suc k) p" using split_at [OF k] by simp
  then show ?thesis using before_branch [OF lt, of "ys @ take k p" "drop (Suc k) p" xs] q by simp
qed

lemma later_siblings_sorted: "sorted_wrt before (later_siblings doc p)"
  by (auto simp: later_siblings_def preorder_sorted split: list.splits option.splits)

lemma later_siblings_shape:
  "q \<in> set (later_siblings doc p) \<Longrightarrow> \<exists>xs j. q = xs @ j # tl p"
  by (auto simp: later_siblings_def split: list.splits option.splits dest: preorder_shape)

lemma following_sorted: "sorted_wrt before (following doc b p)"
proof (induction p)
  case Nil
  then show ?case by simp
next
  case (Cons i ps)
  have "before r q" if "r \<in> set (later_siblings doc (i # ps))" "q \<in> set (following doc b ps)" for r q
  proof -
    from later_siblings_shape [OF that(1)] obtain xs j where "r = (xs @ [j]) @ ps" by auto
    then show ?thesis using before_following [OF that(2), of "xs @ [j]"] by simp
  qed
  then show ?case using Cons.IH later_siblings_sorted [of doc "i # ps"]
    by (auto simp: sorted_wrt_append)
qed

lemma descendants_shape: "q \<in> set (descendants doc p) \<Longrightarrow> \<exists>ys. ys \<noteq> [] \<and> q = ys @ p"
proof -
  assume "q \<in> set (descendants doc p)"
  then obtain xs j where "q = (xs @ [j]) @ p"
    by (auto simp: descendants_def split: option.splits dest: preorder_shape)
  then show ?thesis by blast
qed

lemma descendants_sorted: "sorted_wrt before (descendants doc p)"
  by (simp add: descendants_def preorder_sorted split: option.splits)

lemma walk_sorted: "sorted_wrt before (p # descendants doc p @ following doc b p)"
proof -
  have a: "before p q" if "q \<in> set (descendants doc p)" for q
    using descendants_shape [OF that] before_extend by auto
  have b: "before p q" if "q \<in> set (following doc b p)" for q
    using before_following [OF that, of "[]"] by simp
  have c: "before r q" if "r \<in> set (descendants doc p)" "q \<in> set (following doc b p)" for r q
    using descendants_shape [OF that(1)] before_following [OF that(2)] by auto
  show ?thesis using a b c descendants_sorted following_sorted
    by (auto simp: sorted_wrt_append)
qed

subsection \<open>The objects of the walk\<close>

lemma below_append_Some: "below doc (xs @ q) = Some y \<Longrightarrow> \<exists>z. below doc q = Some z"
  by (induction xs arbitrary: y) (auto split: option.splits if_splits)

lemma alive_suffix: "alive doc (xs @ j # ps) \<Longrightarrow> alive doc (j # ps)"
proof -
  assume "alive doc (xs @ j # ps)"
  then obtain y where "below doc (xs @ j # ps) = Some y" by (auto simp: alive_def)
  from below_append_Some [OF this] obtain z where "below doc (j # ps) = Some z" by blast
  then show ?thesis unfolding alive_def by simp
qed

lemma preorder_set:
  "below doc ps = Some ts \<Longrightarrow> ts0 = drop i ts \<Longrightarrow>
   set (preorder ps i ts0) = {q. alive doc q \<and> (\<exists>xs j. q = xs @ j # ps \<and> i \<le> j)}"
proof (induction ps i ts0 arbitrary: ts rule: preorder.induct)
  case (1 ps i)
  have "\<not> alive doc (xs @ j # ps)" if "i \<le> j" for xs j
  proof
    assume "alive doc (xs @ j # ps)"
    then have "alive doc (j # ps)" by (rule alive_suffix)
    then have "j < length ts" using "1.prems"(1) by (simp add: alive_Cons)
    then show False using "1.prems"(2) that by simp
  qed
  then show ?case by auto
next
  case (2 ps i n ty cs rest)
  from "2.prems"(2) have il: "i < length ts"
    by (metis drop_eq_Nil list.distinct(1) not_le)
  then have dr: "drop i ts = ts ! i # drop (Suc i) ts" by (simp add: Cons_nth_drop_Suc)
  with "2.prems"(2) have ti: "ts ! i = Obj n ty cs" and rest: "rest = drop (Suc i) ts" by simp_all
  have bc: "below doc (i # ps) = Some cs" using "2.prems"(1) il ti by simp
  have ali: "alive doc (i # ps)" using "2.prems"(1) il by (auto simp: alive_Cons)
  have s1: "set (preorder (i # ps) 0 cs) = {q. alive doc q \<and> (\<exists>xs j. q = xs @ j # i # ps \<and> 0 \<le> j)}"
    by (rule "2.IH"(1) [OF bc]) simp
  have s2: "set (preorder ps (Suc i) rest) = {q. alive doc q \<and> (\<exists>xs j. q = xs @ j # ps \<and> Suc i \<le> j)}"
    by (rule "2.IH"(2) [OF "2.prems"(1) rest])
  show ?case (is "?L = ?R")
  proof (intro set_eqI iffI)
    fix q assume "q \<in> ?L"
    then consider "q = i # ps" | "q \<in> set (preorder (i # ps) 0 cs)" | "q \<in> set (preorder ps (Suc i) rest)"
      by auto
    then show "q \<in> ?R"
    proof cases
      case 1
      then show ?thesis using ali by auto
    next
      case 2
      then obtain xs j where "alive doc q" "q = xs @ j # i # ps" using s1 by auto
      then have "alive doc q" "q = (xs @ [j]) @ i # ps" by simp_all
      then show ?thesis by blast
    next
      case 3
      then obtain xs j where "alive doc q" "q = xs @ j # ps" "Suc i \<le> j" using s2 by auto
      then have "alive doc q \<and> q = xs @ j # ps \<and> i \<le> j" by simp
      then show ?thesis by blast
    qed
  next
    fix q assume "q \<in> ?R"
    then obtain xs j where al: "alive doc q" and q: "q = xs @ j # ps" and ij: "i \<le> j" by auto
    show "q \<in> ?L"
    proof (cases "j = i")
      case False
      then have "Suc i \<le> j" using ij by simp
      then have "q \<in> set (preorder ps (Suc i) rest)" unfolding s2 using al q by blast
      then show ?thesis by simp
    next
      case True
      show ?thesis
      proof (cases xs rule: rev_cases)
        case Nil
        then show ?thesis using q True by simp
      next
        case (snoc xs' j')
        then have "q = xs' @ j' # i # ps" using q True by simp
        then have "q \<in> set (preorder (i # ps) 0 cs)" unfolding s1 using al by blast
        then show ?thesis by simp
      qed
    qed
  qed
qed

lemma under_iff: "under p q \<longleftrightarrow> (\<exists>xs j. q = xs @ j # p)"
proof
  assume "under p q"
  then obtain ys where "q = ys @ p" "ys \<noteq> []" by (auto simp: under_def suffix_def)
  then obtain xs j where "q = (xs @ [j]) @ p" by (cases ys rule: rev_cases) auto
  then show "\<exists>xs j. q = xs @ j # p" by auto
next
  assume "\<exists>xs j. q = xs @ j # p"
  then obtain xs j where "q = (xs @ [j]) @ p" by auto
  then show "under p q" unfolding under_def suffix_def by (metis append_self_conv2 snoc_eq_iff_butlast)
qed

lemma descendants_set:
  assumes "alive doc p"
  shows "set (descendants doc p) = {q. alive doc q \<and> under p q}"
proof -
  from assms obtain ts where b: "below doc p = Some ts" by (auto simp: alive_def)
  have "set (preorder p 0 ts) = {q. alive doc q \<and> (\<exists>xs j. q = xs @ j # p \<and> 0 \<le> j)}"
    by (rule preorder_set [OF b]) simp
  then show ?thesis using b by (simp add: descendants_def under_iff)
qed

lemma later_siblings_set:
  assumes "alive doc (i # ps)"
  shows "set (later_siblings doc (i # ps)) = {q. alive doc q \<and> (\<exists>xs j. q = xs @ j # ps \<and> i < j)}"
proof -
  from assms obtain ts where b: "below doc ps = Some ts" by (auto simp: alive_Cons)
  have "set (preorder ps (Suc i) (drop (Suc i) ts)) = {q. alive doc q \<and> (\<exists>xs j. q = xs @ j # ps \<and> Suc i \<le> j)}"
    by (rule preorder_set [OF b]) simp
  then show ?thesis using b by (simp add: later_siblings_def Suc_le_eq)
qed

lemma following_member:
  assumes "alive doc p" and "k < length p" and "alive doc (xs @ j # drop (Suc k) p)" and "p ! k < j"
  shows "xs @ j # drop (Suc k) p \<in> set (following doc None p)"
  using assms
proof (induction p arbitrary: k)
  case Nil
  then show ?case by simp
next
  case (Cons i ps)
  show ?case
  proof (cases k)
    case 0
    then have "xs @ j # drop (Suc k) (i # ps) \<in> set (later_siblings doc (i # ps))"
      unfolding later_siblings_set [OF Cons.prems(1)] using Cons.prems by auto
    then show ?thesis by simp
  next
    case (Suc k')
    then have ne: "ps \<noteq> []" using Cons.prems(2) by auto
    have "alive doc ps" using Cons.prems(1) ne by (rule alive_parent)
    from Cons.IH [OF this, of k'] Cons.prems Suc
    have "xs @ j # drop (Suc k') ps \<in> set (following doc None ps)" by simp
    then show ?thesis using Suc ne by simp
  qed
qed

lemma path_less_cases:
  "path_less a c \<Longrightarrow> (\<exists>ys. ys \<noteq> [] \<and> c = a @ ys) \<or> (\<exists>zs x y u v. a = zs @ x # u \<and> c = zs @ y # v \<and> x < y)"
proof (induction a c rule: path_less.induct)
  case (4 x xs y ys)
  show ?case
  proof (cases "x < y")
    case True
    then have "x # xs = [] @ x # xs \<and> y # ys = [] @ y # ys \<and> x < y" by simp
    then show ?thesis by blast
  next
    case False
    with "4.prems" have e: "x = y" and pl: "path_less xs ys" by auto
    from "4.IH" [OF pl] show ?thesis
    proof
      assume "\<exists>zs. zs \<noteq> [] \<and> ys = xs @ zs"
      then show ?thesis using e by auto
    next
      assume "\<exists>zs a b u v. xs = zs @ a # u \<and> ys = zs @ b # v \<and> a < b"
      then obtain zs a b u v where "xs = zs @ a # u" "ys = zs @ b # v" "a < b" by blast
      then have "x # xs = (x # zs) @ a # u \<and> y # ys = (x # zs) @ b # v \<and> a < b" using e by simp
      then show ?thesis by blast
    qed
  qed
qed simp_all

lemma following_set:
  assumes al: "alive doc p"
  shows "set (following doc None p) = {q. alive doc q \<and> before p q \<and> \<not> under p q}"
proof (intro set_eqI iffI)
  fix q assume q: "q \<in> set (following doc None p)"
  from following_shape [OF q] obtain k xs j
    where k: "k < length p" and qe: "q = xs @ j # drop (Suc k) p" and lt: "p ! k < j" by auto
  have "alive doc q" using al q
  proof (induction p)
    case Nil
    then show ?case by simp
  next
    case (Cons i ps)
    then show ?case
      by (cases "ps = []") (auto simp: later_siblings_set dest: alive_parent)
  qed
  moreover have "before p q" using before_following [OF q, of "[]"] by simp
  moreover have "\<not> under p q"
  proof
    assume "under p q"
    then obtain ys where "q = ys @ p" by (auto simp: under_def suffix_def)
    then have "before q q" using before_following [OF q, of ys] by simp
    then show False by (simp add: before_irrefl)
  qed
  ultimately show "q \<in> {q. alive doc q \<and> before p q \<and> \<not> under p q}" by simp
next
  fix q assume "q \<in> {q. alive doc q \<and> before p q \<and> \<not> under p q}"
  then have alq: "alive doc q" and bf: "path_less (rev p) (rev q)" and nu: "\<not> under p q"
    by (simp_all add: before_def)
  from path_less_cases [OF bf] show "q \<in> set (following doc None p)"
  proof
    assume "\<exists>ys. ys \<noteq> [] \<and> rev q = rev p @ ys"
    then obtain ys where "ys \<noteq> []" "rev q = rev p @ ys" by auto
    then have "q = rev ys @ p" "rev ys \<noteq> []" by (simp_all add: rev_swap)
    then have "under p q" by (auto simp: under_def suffix_def)
    then show ?thesis using nu by simp
  next
    assume "\<exists>zs x y u v. rev p = zs @ x # u \<and> rev q = zs @ y # v \<and> x < y"
    then obtain zs x y u v where "rev p = zs @ x # u" "rev q = zs @ y # v" and xy: "x < y" by blast
    then have p: "p = rev u @ x # rev zs" and qq: "q = rev v @ y # rev zs" by (simp_all add: rev_swap)
    let ?k = "length u"
    have k: "?k < length p" using p by simp
    have pk: "p ! ?k = x" using p by (simp add: nth_append)
    have dk: "drop (Suc ?k) p = rev zs" using p by simp
    from following_member [OF al k, of "rev v" y] alq xy show ?thesis
      unfolding dk pk qq by simp
  qed
qed

section \<open>Properties of ObjectIterator\<close>

text \<open>
  Claim C1, as the code has it. A walk without \<^verbatim>\<open>children_only\<close> and without stop objects
  does not end with the subtree of its start object. From a live start object \<open>p\<close> it
  yields \<open>p\<close>, then the proper descendants of \<open>p\<close> in depth-first pre-order, and then
  goes on with every object that follows the subtree of \<open>p\<close> in the document: the later
  siblings of \<open>p\<close> and of its ancestors, each with its subtree. Every object is paired with
  its depth plus the base level. The objects yielded are exactly the live objects at or
  after \<open>p\<close> in document order, each once, in increasing document order, so a parent comes
  before its descendants and siblings come in the order of their links.
\<close>

theorem full_walk_yields_rest_of_document:
  assumes "alive doc p"
  shows "iterate doc (Some p) NoStop False l =
           Some (with_levels l (p # descendants doc p @ following doc None p))
       \<and> set (descendants doc p) = {q. alive doc q \<and> under p q}
       \<and> set (following doc None p) = {q. alive doc q \<and> before p q \<and> \<not> under p q}
       \<and> sorted_wrt before (p # descendants doc p @ following doc None p)
       \<and> distinct (p # descendants doc p @ following doc None p)"
  using full_walk [OF assms] descendants_set [OF assms] following_set [OF assms]
    walk_sorted [of p doc None] sorted_wrt_before_distinct [OF walk_sorted [of p doc None]]
  by blast

theorem full_walk_yields_rest_of_document_witness:
  "alive example_doc [0, 0]
   \<and> iterate example_doc (Some [0, 0]) NoStop False (- 1) =
       Some [(Some [0, 0], 1), (Some [0, 0, 0], 2), (Some [1, 0], 1)]"
proof -
  have a: "alive example_doc [0, 0]" by (simp add: alive_def example_doc_def)
  have "with_levels (- 1) ([0, 0] # descendants example_doc [0, 0] @ following example_doc None [0, 0])
        = [(Some [0, 0], 1), (Some [0, 0, 0], 2), (Some [1, 0], 1)]"
    by (simp add: with_levels_def descendants_def later_siblings_def example_doc_def)
  then show ?thesis using a full_walk_yields_rest_of_document [OF a, of "- 1"] by simp
qed

text \<open>
  Claim C1 as stated fails: started at \<open>A\<close> in the example tree, the walk yields three
  pairs, the last of them for \<open>B\<close>, which is a sibling of \<open>A\<close> and not in its subtree; the
  subtree of \<open>A\<close> has two objects, \<open>A\<close> and \<open>A1\<close>.
\<close>

theorem full_walk_leaves_subtree:
  "iterate example_doc (Some [0, 0]) NoStop False (- 1) =
     Some [(Some [0, 0], 1), (Some [0, 0, 0], 2), (Some [1, 0], 1)]
   \<and> [0, 0] # descendants example_doc [0, 0] = [[0, 0], [0, 0, 0]]
   \<and> \<not> under [0, 0] [1, 0]"
  by code_simp

text \<open>
  Claim C2. With \<^verbatim>\<open>children_only\<close> and no stop objects, the walk from a live start object
  \<open>p\<close> ends, and yields the proper descendants of \<open>p\<close> in pre-order with their levels: the
  objects yielded are exactly the live objects strictly under \<open>p\<close>, each once, and \<open>p\<close> is
  not among them. The walk without \<^verbatim>\<open>children_only\<close> yields \<open>p\<close>, then the same
  descendants, before anything else.
\<close>

theorem children_only_walk_yields_descendants:
  assumes "alive doc p"
  shows "iterate doc (Some p) NoStop True l = Some (with_levels l (descendants doc p))
       \<and> set (descendants doc p) = {q. alive doc q \<and> under p q}
       \<and> p \<notin> set (descendants doc p)
       \<and> distinct (descendants doc p)
       \<and> sorted_wrt before (descendants doc p)
       \<and> iterate doc (Some p) NoStop False l =
           Some (with_levels l (p # descendants doc p @ following doc None p))"
proof -
  have "p \<notin> set (descendants doc p)"
    unfolding descendants_set [OF assms] by (simp add: under_def)
  then show ?thesis
    using children_walk [OF assms] descendants_set [OF assms] full_walk [OF assms]
      descendants_sorted [of doc p] sorted_wrt_before_distinct [OF descendants_sorted [of doc p]]
    by blast
qed

theorem children_only_walk_yields_descendants_witness:
  "alive example_doc [0]
   \<and> iterate example_doc (Some [0]) NoStop True (- 1) =
       Some [(Some [0, 0], 1), (Some [0, 0, 0], 2), (Some [1, 0], 1)]"
proof -
  have a: "alive example_doc [0]" by (simp add: alive_def example_doc_def)
  have "with_levels (- 1) (descendants example_doc [0])
        = [(Some [0, 0], 1), (Some [0, 0, 0], 2), (Some [1, 0], 1)]"
    by (simp add: with_levels_def descendants_def example_doc_def)
  then show ?thesis using a children_only_walk_yields_descendants [OF a, of "- 1"] by simp
qed

text \<open>
  Claim C9 at the failing input. For a null start object the walk with \<^verbatim>\<open>children_only\<close>
  is empty, but the walk without it yields one pair, the null object with the base level:
  the first call of \<^verbatim>\<open>next\<close> returns the start pair before the object is tested.
\<close>

theorem null_start_walks:
  "iterate doc None stopobj True startlvl = Some []
   \<and> iterate doc None stopobj False startlvl = Some [(None, startlvl)]"
proof
  show "iterate doc None stopobj True startlvl = Some []"
    unfolding iterate_def
    by (subst drain.simps) (simp add: ObjectIterator_next_def ObjectIterator_init_def Let_def)
  have "drain doc ((ObjectIterator_init doc None stopobj False startlvl)\<lparr>init := False\<rparr>) = Some []"
    by (subst drain.simps) (simp add: ObjectIterator_next_def ObjectIterator_init_def Let_def)
  then show "iterate doc None stopobj False startlvl = Some [(None, startlvl)]"
    unfolding iterate_def
    by (subst drain.simps) (simp add: ObjectIterator_next_def ObjectIterator_init_def Let_def)
qed

section \<open>getNextObject without stop objects\<close>

lemma getNextObject_default: "getNextObject doc (Some ob) NoStop = Inl TypeError"
  by (simp add: getNextObject_def stop_list_def split: option.splits)

lemma below_empty: "below [] p = (if p = [] then Some [] else None)"
  by (induction p) (auto split: option.splits)

lemma alive_first_object: "alive doc p \<Longrightarrow> GetFirstObject doc = Some [0]"
  by (cases "doc = []") (auto simp: alive_def GetFirstObject_def below_empty)

text \<open>
  Claim C10. For an object with a first child, \<^verbatim>\<open>getNextObject\<close> called without stop
  objects raises \<^verbatim>\<open>TypeError\<close>, and so \<^verbatim>\<open>findObjects\<close> and \<^verbatim>\<open>getActiveObjects\<close> raise it
  on a document that holds such an object.
\<close>

theorem getNextObject_without_stops_raises:
  assumes "alive doc p" and "GetDown doc p \<noteq> None"
  shows "getNextObject doc (Some p) NoStop = Inl TypeError
       \<and> findObjects doc name = Some (Inl TypeError)
       \<and> getActiveObjects doc active = Some (Inl TypeError)"
proof -
  have f: "GetFirstObject doc = Some [0]" using assms(1) by (rule alive_first_object)
  have "findObjects doc name = Some (Inl TypeError)"
    unfolding findObjects_def f
    by (subst findObjects_loop.simps) (simp add: getNextObject_default)
  moreover have "getActiveObjects doc active = Some (Inl TypeError)"
    unfolding getActiveObjects_def f
    by (subst getActiveObjects_loop.simps) (simp add: getNextObject_default)
  ultimately show ?thesis by (simp add: getNextObject_default)
qed

theorem getNextObject_without_stops_raises_witness:
  "alive example_doc [0] \<and> GetDown example_doc [0] \<noteq> None
   \<and> getNextObject example_doc (Some [0]) NoStop = Inl TypeError
   \<and> findObjects example_doc ''A'' = Some (Inl TypeError)
   \<and> getActiveObjects example_doc (\<lambda>ob. True) = Some (Inl TypeError)"
proof -
  have a: "alive example_doc [0]" by (simp add: alive_def example_doc_def)
  have d: "GetDown example_doc [0] \<noteq> None" by (simp add: GetDown_def example_doc_def)
  show ?thesis
    using a d getNextObject_without_stops_raises [OF a d, of "''A''" "\<lambda>ob. True"] by simp
qed

section \<open>Index keys\<close>

lemma collect_parents_ancestors:
  "collect_parents doc (Some p) plist = plist @ map (GetName doc) (rev (ancestors p))"
proof (induction p arbitrary: plist)
  case Nil
  then show ?case by (simp add: GetUp_def)
next
  case (Cons i ps)
  then show ?case by (cases "ps = []") (simp_all add: GetUp_def)
qed

text \<open>
  Claim C4, as the code has it. An object is indexed under the names of all its proper
  ancestors, from the top-level object down to its parent, joined by \<open>/\<close>; the snapshot
  root and the ancestors above it are part of the key. An object without a parent is
  indexed under its own name.
\<close>

theorem index_key_names_all_ancestors:
  assumes "passes_filter doc filtertype (Some p) = Inr True"
  shows "index_pair doc filtertype (Some p, lvl) (hierarchy, maxl) =
     Inr (hierarchy_append hierarchy
            (str_join ''/'' (if ancestors p = [] then [GetName doc p]
                             else map (GetName doc) (ancestors p))) p,
          if lvl > maxl then lvl else maxl)"
  using assms
  by (simp add: index_pair_def parent_path_def collect_parents_ancestors
      sep_def rev_map del: collect_parents.simps)

theorem index_key_names_all_ancestors_witness:
  "passes_filter example_doc None (Some [0, 0, 0]) = Inr True
   \<and> index_pair example_doc None (Some [0, 0, 0], 2) ([(''R'', [[0, 0]])], 1) =
       Inr ([(''R'', [[0, 0]]), (''R/A'', [[0, 0, 0]])], 2)"
proof -
  have a: "passes_filter example_doc None (Some [0, 0, 0]) = Inr True"
    by (simp add: passes_filter_def)
  have "str_join ''/'' (if ancestors [0, 0, 0] = [] then [GetName example_doc [0, 0, 0]]
                        else map (GetName example_doc) (ancestors [0, 0, 0])) = ''R/A''"
    by (simp add: GetName_def lookup_def example_doc_def)
  then show ?thesis
    using a index_key_names_all_ancestors [OF a, of 2 "[(''R'', [[0, 0]])]" 1] by simp
qed

text \<open>
  Claim C4 as stated fails: in the snapshot of the example tree taken from \<open>R\<close>, the object
  \<open>A\<close> is indexed under \<open>R\<close>, the name of the snapshot root; a walk that stops at the
  snapshot root and excludes it finds no ancestor and gives the key \<open>A\<close>.
\<close>

theorem index_key_includes_snapshot_root:
  "ObjectHierarchy_init example_doc (Some [0]) None =
     Some (Inr \<lparr>root = Some [0], maxlvl = 2,
                entries = [(''R'', [[0, 0], [1, 0]]), (''R/A'', [[0, 0, 0]])]\<rparr>)
   \<and> parent_path example_doc [0, 0] = ''R''
   \<and> path_below_root example_doc (Some [0]) [0, 0] = ''A''"
  by code_simp

section \<open>Resolution of parent hops\<close>

text \<open>The components that the loop keeps, in the order in which it meets them.\<close>

lemma resolve_loop_append:
  "resolve_loop (xs @ ys) skip acc =
     resolve_loop ys (if xs = [] then skip else last xs = ''..'') (resolve_loop xs skip acc)"
proof (induction xs arbitrary: skip acc)
  case Nil
  then show ?case by simp
next
  case (Cons x xs)
  show ?case
  proof (cases "xs = []")
    case True
    then show ?thesis by simp
  next
    case False
    then show ?thesis using Cons.IH by simp
  qed
qed

lemma resolve_loop_acc: "resolve_loop xs skip acc = acc @ resolve_loop xs skip []"
proof (induction xs arbitrary: skip acc)
  case Nil
  then show ?case by simp
next
  case (Cons x xs)
  consider "x = ''..''" | "x \<noteq> ''..''" "skip" | "x \<noteq> ''..''" "\<not> skip" by blast
  then show ?case
  proof cases
    case 1
    then show ?thesis using Cons.IH [of True acc] by simp
  next
    case 2
    then show ?thesis using Cons.IH [of False acc] by simp
  next
    case 3
    then show ?thesis
      using Cons.IH [of False "acc @ [x]"] Cons.IH [of False "[x]"] by simp
  qed
qed

lemma resolve_loop_rev: "rev (resolve_loop (rev comps) False []) = drop_parent_hops comps"
proof (induction comps rule: drop_parent_hops.induct)
  case 1
  then show ?case by simp
next
  case (2 c)
  then show ?case by simp
next
  case (3 c d cs)
  have "resolve_loop (rev (c # d # cs)) False [] =
        resolve_loop [c] (d = ''..'') (resolve_loop (rev (d # cs)) False [])"
    using resolve_loop_append [of "rev (d # cs)" "[c]" False "[]"] by simp
  also have "\<dots> = resolve_loop (rev (d # cs)) False [] @ resolve_loop [c] (d = ''..'') []"
    by (rule resolve_loop_acc)
  finally have "rev (resolve_loop (rev (c # d # cs)) False []) =
      rev (resolve_loop [c] (d = ''..'') []) @ rev (resolve_loop (rev (d # cs)) False [])"
    by simp
  moreover have "rev (resolve_loop (rev (d # cs)) False []) = drop_parent_hops (d # cs)"
    using "3.IH" by (cases "c = ''..'' \<or> d = ''..''") blast+
  moreover have "rev (resolve_loop [c] (d = ''..'') []) = (if c = ''..'' \<or> d = ''..'' then [] else [c])"
    by simp
  ultimately show ?case by simp
qed

text \<open>The rule of the loop for every expression that contains \<^verbatim>\<open>..\<close>: the pattern is
  compiled from the components that are neither \<^verbatim>\<open>..\<close> nor right before a \<^verbatim>\<open>..\<close>.\<close>

lemma get_pattern_drops_parent_hops:
  assumes "str_contains ''..'' (str_strip path)"
  shows "get_pattern path =
           compile_path (str_join ''/'' (drop_parent_hops (str_split CHR ''/'' (str_strip path))))"
  using assms by (simp add: get_pattern_def resolve_path_def sep_def resolve_loop_rev Let_def)

text \<open>
  Claim C5 at the failing input. The loop keeps one flag for a pending hop, so the two
  \<^verbatim>\<open>..\<close> of \<^verbatim>\<open>a/b/../../c\<close> drop \<^verbatim>\<open>b\<close> only: the expression is compiled to \<^verbatim>\<open>^a/c$\<close>,
  and on the snapshot of a document with \<open>x\<close> under \<open>a/c\<close> and \<open>y\<close> under a top-level \<open>c\<close>,
  \<^verbatim>\<open>get\<close> returns \<open>x\<close>. With one ancestor popped for each \<^verbatim>\<open>..\<close> the expression is
  \<^verbatim>\<open>c\<close>, for which \<^verbatim>\<open>get\<close> returns the top-level \<open>c\<close> and \<open>y\<close>. A single hop is resolved
  as claimed: \<^verbatim>\<open>a/b/../c\<close> gives \<^verbatim>\<open>a/c\<close>.
\<close>

theorem consecutive_parent_hops_pop_once:
  "get_pattern ''a/b/../../c'' = Inr ''^a/c$''
   \<and> str_join ''/'' (pop_parent_hops [] (str_split CHR ''/'' ''a/b/../../c'')) = ''c''
   \<and> (case ObjectHierarchy_init hop_doc None None of
         Some (Inr h) \<Rightarrow> Some (get h ''a/b/../../c'', get h ''c'')
       | _ \<Rightarrow> None) = Some (Inr [[0, 0, 0]], Inr [[1], [0, 1]])
   \<and> resolve_path ''a/b/../c'' = ''a/c''"
  by code_simp

section \<open>The index of a snapshot\<close>

lemma drain_Nil: "drain doc it = Some [] \<Longrightarrow> fst (ObjectIterator_next doc it) = None"
  by (subst (asm) drain.simps) (auto split: prod.splits option.splits simp: bind_eq_Some_conv)

lemma drain_Cons:
  "drain doc it = Some (y # ys) \<Longrightarrow>
   \<exists>it'. ObjectIterator_next doc it = (Some y, it') \<and> drain doc it' = Some ys"
  by (subst (asm) drain.simps) (auto split: prod.splits option.splits simp: bind_eq_Some_conv)

lemma index_loop_drain:
  "drain doc it = Some pairs \<Longrightarrow>
   index_loop doc filtertype it st = Some (index_all doc filtertype pairs st)"
proof (induction pairs arbitrary: it st)
  case Nil
  from drain_Nil [OF Nil] show ?case
    by (subst index_loop.simps) (auto split: prod.splits)
next
  case (Cons y ys)
  from drain_Cons [OF Cons.prems] obtain it'
    where nx: "ObjectIterator_next doc it = (Some y, it')" and dr: "drain doc it' = Some ys" by blast
  show ?case
    using nx Cons.IH [OF dr] by (subst index_loop.simps) (simp split: sum.splits)
qed

lemma index_all_unfiltered:
  "index_all doc None pairs (h, m) = Inr (h', m') \<Longrightarrow>
   \<exists>nodes. map fst pairs = map Some nodes
        \<and> h' = fold (\<lambda>p h. hierarchy_append h (parent_path doc p) p) nodes h"
proof (induction pairs arbitrary: h m)
  case Nil
  then show ?case by simp
next
  case (Cons pair pairs)
  obtain op lvl where pair: "pair = (op, lvl)" by (cases pair)
  from Cons.prems obtain p where op: "op = Some p"
    by (cases op) (auto simp: pair index_pair_def passes_filter_def)
  let ?h1 = "hierarchy_append h (parent_path doc p) p"
  let ?m1 = "if lvl > m then lvl else m"
  have "index_pair doc None pair (h, m) = Inr (?h1, ?m1)"
    by (simp add: pair op index_pair_def passes_filter_def)
  with Cons.prems have "index_all doc None pairs (?h1, ?m1) = Inr (h', m')" by simp
  from Cons.IH [OF this] obtain nodes where "map fst pairs = map Some nodes"
    and "h' = fold (\<lambda>p h. hierarchy_append h (parent_path doc p) p) nodes ?h1" by blast
  then have "map fst (pair # pairs) = map Some (p # nodes)
      \<and> h' = fold (\<lambda>p h. hierarchy_append h (parent_path doc p) p) (p # nodes) h"
    by (simp add: pair op)
  then show ?case by blast
qed

lemma keys_hierarchy_append: "map fst (hierarchy_append h k p) = (if k \<in> fst ` set h then map fst h else map fst h @ [k])"
  by (induction h) force+

lemma distinct_hierarchy_append: "distinct (map fst h) \<Longrightarrow> distinct (map fst (hierarchy_append h k p))"
  by (simp add: keys_hierarchy_append)

lemma map_of_hierarchy_append:
  "map_of (hierarchy_append h k p) =
     (map_of h)(k \<mapsto> (case map_of h k of None \<Rightarrow> [] | Some ns \<Rightarrow> ns) @ [p])"
  by (induction h) (auto simp: fun_eq_iff)

lemma size_hierarchy_append:
  "sum_list (map (\<lambda>e. length (snd e)) (hierarchy_append h k p)) = Suc (sum_list (map (\<lambda>e. length (snd e)) h))"
  by (induction h) auto

lemma fold_hierarchy_append:
  fixes f :: "node \<Rightarrow> string"
  defines "step \<equiv> (\<lambda>p h. hierarchy_append h (f p) p)"
  shows "distinct (map fst h) \<Longrightarrow> distinct (map fst (fold step nodes h))"
    and "sum_list (map (\<lambda>e. length (snd e)) (fold step nodes h)) = length nodes + sum_list (map (\<lambda>e. length (snd e)) h)"
    and "map_of (fold step nodes h) k =
          (if k \<in> f ` set nodes \<or> map_of h k \<noteq> None
           then Some ((case map_of h k of None \<Rightarrow> [] | Some ns \<Rightarrow> ns) @ filter (\<lambda>p. f p = k) nodes)
           else None)"
proof -
  show "distinct (map fst h) \<Longrightarrow> distinct (map fst (fold step nodes h))"
    by (induction nodes arbitrary: h) (simp_all add: step_def distinct_hierarchy_append)
  show "sum_list (map (\<lambda>e. length (snd e)) (fold step nodes h)) = length nodes + sum_list (map (\<lambda>e. length (snd e)) h)"
    by (induction nodes arbitrary: h) (simp_all add: step_def size_hierarchy_append)
  show "map_of (fold step nodes h) k =
          (if k \<in> f ` set nodes \<or> map_of h k \<noteq> None
           then Some ((case map_of h k of None \<Rightarrow> [] | Some ns \<Rightarrow> ns) @ filter (\<lambda>p. f p = k) nodes)
           else None)"
  proof (induction nodes arbitrary: h)
    case Nil
    then show ?case by (auto split: option.splits)
  next
    case (Cons p nodes)
    show ?case
      unfolding fold_simps Cons.IH
      by (auto simp: step_def map_of_hierarchy_append split: option.splits)
  qed
qed

text \<open>
  Claim C3. Take a snapshot built without a filter type, and the pairs that the walk
  driving it yields. Then the node lists of the index have as many elements in all as the
  walk has pairs; the keys of the index are distinct; the node list under a key is the
  sequence of the yielded objects whose parent path is that key, in the order of the walk;
  and every yielded object is in the node list of exactly one entry.
\<close>

theorem index_holds_every_yielded_object:
  assumes walk: "drain doc (hierarchy_iterator doc rootobj) = Some pairs"
    and built: "ObjectHierarchy_init doc rootobj None = Some (Inr h)"
  shows "sum_list (map (\<lambda>e. length (snd e)) (entries h)) = length pairs
       \<and> distinct (map fst (entries h))
       \<and> (\<forall>e \<in> set (entries h).
            map Some (snd e) =
              filter (\<lambda>op. map_option (parent_path doc) op = Some (fst e)) (map fst pairs))
       \<and> (\<forall>op \<in> set (map fst pairs). \<exists>!e. e \<in> set (entries h) \<and> op \<in> Some ` set (snd e))"
proof -
  let ?f = "parent_path doc"
  let ?step = "\<lambda>p h. hierarchy_append h (?f p) p"
  from built obtain m where ia: "index_all doc None pairs ([], - 1) = Inr (entries h, m)"
    unfolding ObjectHierarchy_init_def index_loop_drain [OF walk]
    by (auto split: sum.splits prod.splits)
  from index_all_unfiltered [OF ia] obtain nodes
    where nodes: "map fst pairs = map Some nodes" and eh: "entries h = fold ?step nodes []" by blast
  have len: "length nodes = length pairs" using nodes by (metis length_map)
  have dist: "distinct (map fst (entries h))"
    unfolding eh by (rule fold_hierarchy_append(1)) simp
  have total: "sum_list (map (\<lambda>e. length (snd e)) (entries h)) = length pairs"
    unfolding eh fold_hierarchy_append(2) using len by simp
  have look: "map_of (entries h) k =
      (if k \<in> ?f ` set nodes then Some (filter (\<lambda>p. ?f p = k) nodes) else None)" for k
    unfolding eh fold_hierarchy_append(3) by simp
  have entry: "snd e = filter (\<lambda>p. ?f p = fst e) nodes" if "e \<in> set (entries h)" for e
  proof -
    from that dist have "map_of (entries h) (fst e) = Some (snd e)" by simp
    then show ?thesis unfolding look by (simp split: if_splits)
  qed
  have order: "map Some (snd e) =
      filter (\<lambda>op. map_option ?f op = Some (fst e)) (map fst pairs)" if "e \<in> set (entries h)" for e
    unfolding nodes entry [OF that] by (simp add: filter_map comp_def)
  have once: "\<exists>!e. e \<in> set (entries h) \<and> op \<in> Some ` set (snd e)" if "op \<in> set (map fst pairs)" for op
  proof -
    from that obtain p where op: "op = Some p" and p: "p \<in> set nodes" unfolding nodes by auto
    let ?e = "(?f p, filter (\<lambda>q. ?f q = ?f p) nodes)"
    have "map_of (entries h) (?f p) = Some (snd ?e)" unfolding look using p by simp
    then have e: "?e \<in> set (entries h)" by (auto dest: map_of_SomeD)
    show ?thesis
    proof (rule ex1I [of _ ?e])
      show "?e \<in> set (entries h) \<and> op \<in> Some ` set (snd ?e)" using e p op by simp
    next
      fix e' assume a: "e' \<in> set (entries h) \<and> op \<in> Some ` set (snd e')"
      then have "p \<in> set (filter (\<lambda>q. ?f q = fst e') nodes)" using entry [of e'] op by auto
      then have "fst e' = ?f p" by simp
      moreover have "snd e' = filter (\<lambda>q. ?f q = fst e') nodes" using a entry by blast
      ultimately show "e' = ?e" by (simp add: prod_eq_iff)
    qed
  qed
  show ?thesis using total dist order once by blast
qed

theorem index_holds_every_yielded_object_witness:
  "drain example_doc (hierarchy_iterator example_doc (Some [0])) =
     Some [(Some [0, 0], 1), (Some [0, 0, 0], 2), (Some [1, 0], 1)]
   \<and> ObjectHierarchy_init example_doc (Some [0]) None =
       Some (Inr \<lparr>root = Some [0], maxlvl = 2,
                  entries = [(''R'', [[0, 0], [1, 0]]), (''R/A'', [[0, 0, 0]])]\<rparr>)
   \<and> sum_list (map (\<lambda>e. length (snd e)) [(''R'', [[0, 0], [1, 0]]), (''R/A'', [[0 :: nat, 0, 0]])]) =
       length [(Some [0 :: nat, 0], 1 :: int), (Some [0, 0, 0], 2), (Some [1, 0], 1)]"
proof -
  have a: "drain example_doc (hierarchy_iterator example_doc (Some [0])) =
     Some [(Some [0, 0], 1), (Some [0, 0, 0], 2), (Some [1, 0], 1)]" by code_simp
  have b: "ObjectHierarchy_init example_doc (Some [0]) None =
       Some (Inr \<lparr>root = Some [0], maxlvl = 2,
                  entries = [(''R'', [[0, 0], [1, 0]]), (''R/A'', [[0, 0, 0]])]\<rparr>)" by code_simp
  show ?thesis using a b index_holds_every_yielded_object [OF a b] by simp
qed

text \<open>A snapshot of the objects under a live root object is always built.\<close>

lemma index_all_with_levels:
  "\<exists>h' m'. index_all doc None (with_levels l qs) (h, m) = Inr (h', m')"
  by (induction qs arbitrary: h m) (simp_all add: with_levels_def index_pair_def passes_filter_def)

lemma snapshot_built:
  assumes "alive doc r"
  shows "\<exists>h. ObjectHierarchy_init doc (Some r) None = Some (Inr h)"
proof -
  have "drain doc (hierarchy_iterator doc (Some r)) = Some (with_levels (- 1) (descendants doc r))"
    using children_walk [OF assms, of "- 1"] by (simp add: iterate_def hierarchy_iterator_def)
  from index_loop_drain [OF this, of None "([], - 1)"]
    index_all_with_levels [of doc "- 1" "descendants doc r" "[]" "- 1"]
  show ?thesis by (auto simp: ObjectHierarchy_init_def)
qed

section \<open>Queries\<close>

text \<open>
  Claim C8 at the failing input. An expression that is empty once it is stripped and
  resolved selects nothing, but \<^verbatim>\<open>get\<close> raises \<^verbatim>\<open>IndexError\<close> for it when it reads the
  first character, instead of returning the empty list.
\<close>

theorem get_raises_on_empty_expression:
  "get h [] = Inl IndexError \<and> get h ''  '' = Inl IndexError \<and> get h ''a/..'' = Inl IndexError"
  by (simp add: get_def get_pattern_def str_strip_def is_space_def resolve_path_def
      compile_path_def sep_def)

text \<open>
  Claim C7 at the failing input. The pattern is the expression between \<^verbatim>\<open>^\<close> and \<^verbatim>\<open>$\<close>
  without a group around it, so for \<^verbatim>\<open>R|x\<close> the first branch \<^verbatim>\<open>^R\<close> accepts every key
  that starts with \<open>R\<close>: in the snapshot of the example tree the key \<^verbatim>\<open>R/A\<close> is selected
  on its prefix \<open>R\<close>, and \<open>A1\<close> is returned with \<open>A\<close> and \<open>B\<close>. A key that ends in a newline
  is selected by the expression for the key without it. The keys \<^verbatim>\<open>a/bc\<close> and \<^verbatim>\<open>xa/b\<close>
  are not selected by \<^verbatim>\<open>a/b\<close>.
\<close>

theorem partial_key_match_selected:
  "selects ''R|x'' ''R/A'' = Inr True
   \<and> get example_snapshot ''R|x'' = Inr [[0, 0], [1, 0], [0, 0, 0]]
   \<and> selects ''a/b'' (''a/b'' @ [newline]) = Inr True
   \<and> selects ''a/b'' ''a/bc'' = Inr False
   \<and> selects ''a/b'' ''xa/b'' = Inr False"
  by code_simp

subsection \<open>Wildcard expressions\<close>

lemma str_contains_set: "str_contains sub s \<Longrightarrow> set sub \<subseteq> set s"
proof (induction s)
  case Nil
  then show ?case by simp
next
  case (Cons x xs)
  from Cons.prems consider "prefix sub (x # xs)" | "str_contains sub xs" by auto
  then show ?case
  proof cases
    case 1
    then show ?thesis by (rule set_mono_prefix)
  next
    case 2
    then show ?thesis using Cons.IH by auto
  qed
qed

lemma wildcard_no_dot: "wildcard e \<Longrightarrow> CHR ''.'' \<notin> set e"
  by (auto simp: wildcard_def list_all_iff plain_def metachars_def)

lemma wildcard_resolve: "wildcard e \<Longrightarrow> resolve_path e = e"
  using str_contains_set [of "''..''" e] wildcard_no_dot [of e]
  by (auto simp: resolve_path_def)

lemma str_replace_wildcard:
  "str_replace CHR ''*'' ''.*?'' (str_replace CHR ''?'' ''.'' e) = concat (map wildcard_text e)"
  by (induction e) (simp_all add: str_replace_def wildcard_text_def)

lemma str_split_none: "c \<notin> set s \<Longrightarrow> str_split c s = [s]"
  by (induction s) auto

lemma wildcard_text_no_bar: "wildcard e \<Longrightarrow> CHR ''|'' \<notin> set (concat (map wildcard_text e))"
  by (induction e) (auto simp: wildcard_def wildcard_text_def plain_def metachars_def)

lemma parse_wildcard:
  "wildcard e \<Longrightarrow>
   parse_pieces acc (concat (map wildcard_text e) @ rest) =
     parse_pieces (rev (map wildcard_piece e) @ acc) rest"
proof (induction e arbitrary: acc)
  case Nil
  then show ?case by simp
next
  case (Cons c e)
  then have w: "wildcard e" and c: "plain c \<or> c = CHR ''?'' \<or> c = CHR ''*''"
    by (simp_all add: wildcard_def)
  from c consider "c = CHR ''?''" | "c = CHR ''*''" | "plain c" "c \<noteq> CHR ''?''" "c \<noteq> CHR ''*''"
    by blast
  then show ?case
  proof cases
    case 1
    then show ?thesis using Cons.IH [OF w] by (simp add: wildcard_text_def wildcard_piece_def)
  next
    case 2
    then show ?thesis using Cons.IH [OF w]
      by (simp add: wildcard_text_def wildcard_piece_def rep_of_def)
  next
    case 3
    then show ?thesis using Cons.IH [OF w]
      by (simp add: wildcard_text_def wildcard_piece_def plain_def metachars_def)
  qed
qed

lemma re_parse_wildcard:
  assumes "wildcard e"
  shows "re_parse (''^'' @ concat (map wildcard_text e) @ [CHR 0x24]) =
         Inr [Bol # map wildcard_piece e @ [Eol]]"
proof -
  have "CHR ''|'' \<notin> set (''^'' @ concat (map wildcard_text e) @ [CHR 0x24])"
    using wildcard_text_no_bar [OF assms] by simp
  then have "str_split CHR ''|'' (''^'' @ concat (map wildcard_text e) @ [CHR 0x24]) =
      [''^'' @ concat (map wildcard_text e) @ [CHR 0x24]]"
    by (rule str_split_none)
  then have "re_parse (''^'' @ concat (map wildcard_text e) @ [CHR 0x24]) =
      parse_branches [''^'' @ concat (map wildcard_text e) @ [CHR 0x24]]"
    unfolding re_parse_def by (rule arg_cong)
  also have "\<dots> = Inr [Bol # map wildcard_piece e @ [Eol]]"
    using parse_wildcard [OF assms, of "[Bol]" "[CHR 0x24]"] by simp
  finally show ?thesis .
qed

lemma wildcard_piece_cases:
  "wildcard_piece CHR ''?'' = Chr AnyChar"
  "wildcard_piece CHR ''*'' = Repeat AnyChar ZeroOrMore True"
  "c \<noteq> CHR ''?'' \<Longrightarrow> c \<noteq> CHR ''*'' \<Longrightarrow> wildcard_piece c = Chr (Lit c)"
  by (simp_all add: wildcard_piece_def)

lemma match_wildcard:
  "wildcard e \<Longrightarrow> newline \<notin> set k \<Longrightarrow>
   match_here (map wildcard_piece e @ [Eol]) start k = glob e k"
proof (induction e k arbitrary: start rule: glob.induct)
  case (1 k)
  then show ?case by auto
next
  case (2 c cs k)
  from "2.prems" have w: "wildcard cs" by (simp add: wildcard_def)
  consider "c = CHR ''?''" | "c \<noteq> CHR ''?''" "c = CHR ''*''" | "c \<noteq> CHR ''?''" "c \<noteq> CHR ''*''"
    by blast
  then show ?case
  proof cases
    case 1
    show ?thesis
    proof (cases k)
      case Nil
      then show ?thesis using 1 by (simp add: wildcard_piece_cases)
    next
      case (Cons x xs)
      then show ?thesis using 1 "2.IH"(1) [OF 1 Cons w, of False] "2.prems"(2)
        by (auto simp: wildcard_piece_cases)
    qed
  next
    case 2
    have a: "match_here (map wildcard_piece cs @ [Eol]) start k = glob cs k"
      using "2.IH"(2) [OF 2 w "2.prems"(2)] .
    show ?thesis
    proof (cases k)
      case Nil
      then show ?thesis using 2 a by (simp add: wildcard_piece_cases)
    next
      case (Cons x xs)
      have "match_here (map wildcard_piece (c # cs) @ [Eol]) False xs = glob (c # cs) xs"
        using "2.IH"(3) [OF 2 Cons "2.prems"(1), of False] "2.prems"(2) Cons by simp
      then show ?thesis using 2 a Cons "2.prems"(2) by (auto simp: wildcard_piece_cases)
    qed
  next
    case 3
    show ?thesis
    proof (cases k)
      case Nil
      then show ?thesis using 3 by (simp add: wildcard_piece_cases)
    next
      case (Cons x xs)
      then show ?thesis using 3 "2.IH"(4) [OF 3 Cons w, of False] "2.prems"(2)
        by (auto simp: wildcard_piece_cases)
    qed
  qed
qed

lemma selects_wildcard:
  assumes w: "wildcard e" and ne: "e \<noteq> []" and hd: "hd e \<noteq> CHR ''!''" and st: "str_strip expr = e"
    and nl: "newline \<notin> set key"
  shows "selects expr key = Inr (glob e key)"
proof -
  obtain c cs where e: "e = c # cs" and c: "c \<noteq> CHR ''!''" using ne hd by (cases e) auto
  have "compile_path e = Inr (''^'' @ concat (map wildcard_text e) @ [CHR 0x24])"
    using c unfolding e compile_path_def str_replace_wildcard by simp
  then have "get_pattern expr = Inr (''^'' @ concat (map wildcard_text e) @ [CHR 0x24])"
    by (simp add: get_pattern_def st wildcard_resolve [OF w])
  then show ?thesis
    using re_parse_wildcard [OF w] match_wildcard [OF w nl, of True]
    by (simp add: selects_def re_match_def)
qed

lemma get_unfold:
  "get h path =
     (case get_pattern path of
        Inl e \<Rightarrow> Inl e
      | Inr pat \<Rightarrow>
          (case matching_keys pat (map fst (entries h)) of
             Inl e \<Rightarrow> Inl e
           | Inr keys \<Rightarrow> extend_results (entries h) keys []))"
  by (simp add: get_def)

lemma matching_keys_filter:
  "(\<And>k. k \<in> set ks \<Longrightarrow> re_match pat k = Inr (P k)) \<Longrightarrow> matching_keys pat ks = Inr (filter P ks)"
  by (induction ks) simp_all

lemma extend_results_present:
  "(\<And>e. e \<in> set es' \<Longrightarrow> map_of es (fst e) = Some (snd e)) \<Longrightarrow>
   extend_results es (map fst es') results = Inr (results @ concat (map snd es'))"
  by (induction es' arbitrary: results) simp_all

lemma extend_results_filter:
  assumes "distinct (map fst es)"
  shows "extend_results es (filter P (map fst es)) [] =
         Inr (concat (map snd (filter (\<lambda>e. P (fst e)) es)))"
proof -
  have "filter P (map fst es) = map fst (filter (\<lambda>e. P (fst e)) es)"
    by (simp add: filter_map comp_def)
  moreover have "map_of es (fst e) = Some (snd e)" if "e \<in> set (filter (\<lambda>e. P (fst e)) es)" for e
    using that assms by simp
  ultimately show ?thesis
    using extend_results_present [of "filter (\<lambda>e. P (fst e)) es" es "[]"] by simp
qed

lemma get_pattern_wildcard:
  assumes w: "wildcard (str_strip expr)" and ne: "str_strip expr \<noteq> []"
    and hd: "hd (str_strip expr) \<noteq> CHR ''!''"
  shows "get_pattern expr = Inr (''^'' @ concat (map wildcard_text (str_strip expr)) @ [CHR 0x24])"
proof -
  obtain c cs where e: "str_strip expr = c # cs" and c: "c \<noteq> CHR ''!''"
    using ne hd by (cases "str_strip expr") auto
  have "compile_path (c # cs) = Inr (''^'' @ concat (map wildcard_text (c # cs)) @ [CHR 0x24])"
    using c unfolding compile_path_def str_replace_wildcard by simp
  then show ?thesis using wildcard_resolve [OF w] by (simp add: get_pattern_def e)
qed

lemma re_match_wildcard:
  assumes "wildcard e" and "newline \<notin> set k"
  shows "re_match (''^'' @ concat (map wildcard_text e) @ [CHR 0x24]) k = Inr (glob e k)"
  using re_parse_wildcard [OF assms(1)] match_wildcard [OF assms, of True]
  by (simp add: re_match_def)

text \<open>
  Claim C6, as the code has it. Take an expression that, once stripped, is not empty, does
  not start with \<^verbatim>\<open>!\<close> and holds only \<^verbatim>\<open>?\<close>, \<^verbatim>\<open>*\<close> and characters that start no construct
  of regular expressions. Its pattern is the expression between \<^verbatim>\<open>^\<close> and \<^verbatim>\<open>$\<close> with
  \<^verbatim>\<open>.\<close> for each \<^verbatim>\<open>?\<close> and \<^verbatim>\<open>.*?\<close> for each \<^verbatim>\<open>*\<close>, which is read as one piece for each
  character of the expression: any one character for \<^verbatim>\<open>?\<close>, a lazy run of zero or more
  characters for \<^verbatim>\<open>*\<close>, the character itself for every other one. On an index whose keys
  hold no newline, \<^verbatim>\<open>get\<close> returns the node lists of exactly the keys that match the
  expression as a whole, in the order of the keys. So \<^verbatim>\<open>a/*\<close> selects \<^verbatim>\<open>a/b\<close>, \<^verbatim>\<open>a/bc\<close> and
  \<^verbatim>\<open>a/\<close> but not \<^verbatim>\<open>ax/b\<close>, and \<^verbatim>\<open>a/?\<close> selects \<^verbatim>\<open>a/b\<close> but not \<^verbatim>\<open>a/bc\<close>.
\<close>

theorem get_wildcard_expression_returns_glob_matches:
  assumes "wildcard (str_strip expr)" and "str_strip expr \<noteq> []"
    and "hd (str_strip expr) \<noteq> CHR ''!''"
    and "distinct (map fst (entries h))"
    and "\<forall>k \<in> set (map fst (entries h)). newline \<notin> set k"
  shows "get_pattern expr = Inr (''^'' @ concat (map wildcard_text (str_strip expr)) @ [CHR 0x24])
       \<and> re_parse (''^'' @ concat (map wildcard_text (str_strip expr)) @ [CHR 0x24]) =
           Inr [Bol # map wildcard_piece (str_strip expr) @ [Eol]]
       \<and> get h expr =
           Inr (concat (map snd (filter (\<lambda>e. glob (str_strip expr) (fst e)) (entries h))))
       \<and> get wildcard_snapshot ''a/*'' = Inr [[0, 0, 0], [0, 1, 0], [0, 2, 0]]
       \<and> get wildcard_snapshot ''a/?'' = Inr [[0, 0, 0]]"
proof -
  let ?e = "str_strip expr"
  let ?pat = "''^'' @ concat (map wildcard_text ?e) @ [CHR 0x24]"
  have pat: "get_pattern expr = Inr ?pat" using assms(1-3) by (rule get_pattern_wildcard)
  have parse: "re_parse ?pat = Inr [Bol # map wildcard_piece ?e @ [Eol]]"
    using assms(1) by (rule re_parse_wildcard)
  have "re_match ?pat k = Inr (glob ?e k)" if "k \<in> set (map fst (entries h))" for k
  proof -
    from that assms(5) have "newline \<notin> set k" by blast
    with assms(1) show ?thesis by (rule re_match_wildcard)
  qed
  then have "matching_keys ?pat (map fst (entries h)) = Inr (filter (glob ?e) (map fst (entries h)))"
    by (rule matching_keys_filter)
  then have res: "get h expr =
      Inr (concat (map snd (filter (\<lambda>e. glob ?e (fst e)) (entries h))))"
    unfolding get_unfold pat using extend_results_filter [OF assms(4), of "glob ?e"] by simp
  have ex: "get wildcard_snapshot ''a/*'' = Inr [[0, 0, 0], [0, 1, 0], [0, 2, 0]]
       \<and> get wildcard_snapshot ''a/?'' = Inr [[0, 0, 0]]" by code_simp
  show ?thesis using pat parse res ex by blast
qed

theorem get_wildcard_expression_returns_glob_matches_witness:
  "wildcard (str_strip ''a/*'') \<and> str_strip ''a/*'' \<noteq> [] \<and> hd (str_strip ''a/*'') \<noteq> CHR ''!''
   \<and> distinct (map fst (entries wildcard_snapshot))
   \<and> list_all (\<lambda>k. newline \<notin> set k) (map fst (entries wildcard_snapshot))
   \<and> get_pattern ''a/*'' = Inr ''^a/.*?$''
   \<and> get wildcard_snapshot ''a/*'' = Inr [[0, 0, 0], [0, 1, 0], [0, 2, 0]]"
proof -
  have a: "wildcard (str_strip ''a/*'')" by code_simp
  have b: "str_strip ''a/*'' \<noteq> []" by code_simp
  have c: "hd (str_strip ''a/*'') \<noteq> CHR ''!''" by code_simp
  have d: "distinct (map fst (entries wildcard_snapshot))" by (simp add: wildcard_snapshot_def)
  have e: "\<forall>k \<in> set (map fst (entries wildcard_snapshot)). newline \<notin> set k"
    by (simp add: wildcard_snapshot_def newline_def)
  have f: "''^'' @ concat (map wildcard_text (str_strip ''a/*'')) @ [CHR 0x24] = ''^a/.*?$''"
    by code_simp
  from get_wildcard_expression_returns_glob_matches [OF a b c d e]
  have g: "get_pattern ''a/*'' = Inr ''^a/.*?$''"
    and r: "get wildcard_snapshot ''a/*'' = Inr [[0, 0, 0], [0, 1, 0], [0, 2, 0]]"
    unfolding f by blast+
  have e': "list_all (\<lambda>k. newline \<notin> set k) (map fst (entries wildcard_snapshot))"
    using e by (simp add: list_all_iff)
  show ?thesis using a b c d e' g r by blast
qed

text \<open>
  Claim C6 as stated fails. The characters of the expression other than \<^verbatim>\<open>?\<close> and \<^verbatim>\<open>*\<close>
  go into the pattern as they are, so a \<^verbatim>\<open>.\<close> in the expression matches any character:
  for \<^verbatim>\<open>a.b\<close> \<^verbatim>\<open>get\<close> returns the objects under the keys \<^verbatim>\<open>a/b\<close> and \<^verbatim>\<open>axb\<close>. And a \<^verbatim>\<open>?\<close> does not
  match a newline: for \<^verbatim>\<open>a/?\<close> \<^verbatim>\<open>get\<close> returns nothing from an index whose one key is
  \<^verbatim>\<open>a/\<close> followed by a newline.
\<close>

theorem expression_characters_keep_regex_meaning:
  "get wildcard_snapshot ''a.b'' = Inr [[0, 0, 0], [0, 2]]
   \<and> \<not> glob ''a.b'' ''a/b'' \<and> \<not> glob ''a.b'' ''axb''
   \<and> selects ''a.b'' ''axb'' = Inr True
   \<and> get newline_snapshot ''a/?'' = Inr [] \<and> glob ''a/?'' (''a/'' @ [newline])
   \<and> selects ''a/?'' (''a/'' @ [newline]) = Inr False"
  by code_simp


end
